theory Spec2Isabelle
  imports Main "HOL-Library.Word" "HOL-Library.Multiset" "HOL-Library.Sublist"
begin

unbundle bit_operations_syntax

section \<open>Buffers\<close>

text \<open>
  A Node \<open>Buffer\<close> is a finite sequence of bytes. JavaScript numbers are modelled by
  integers (offsets, sizes) or by natural numbers (unsigned values read from the wire);
  floating-point rounding beyond \<open>2^53\<close> is outside the model.
\<close>

type_synonym byte = "8 word"
type_synonym Buffer = "byte list"

section \<open>Errors\<close>

text \<open>
  Every \<open>throw\<close> is a value: \<open>Error msg\<close> is \<open>new Error(msg)\<close> of this package with a
  fixed message; the other constructors are the errors with a computed message and the
  errors raised inside the OER reader and writer, the cipher and \<open>assert\<close>.
\<close>

datatype error =
    Error string
  | AssertionError string
  | UnsupportedProtocolVersion nat
  | CannotReadFrame nat nat
  | CipherError
  | ReadPastEnd
  | LengthPrefixNotCanonical
  | UIntLengthInvalid
  | UIntTooLargeForNumber
  | UIntDoesNotFit nat nat
  | UIntNotAnInteger
  | IncorrectOctetStringLength nat nat
  | WriterCapacityExceeded

definition bindE :: "error + 'a \<Rightarrow> ('a \<Rightarrow> error + 'b) \<Rightarrow> error + 'b" where
  "bindE m f = (case m of Inl e \<Rightarrow> Inl e | Inr x \<Rightarrow> f x)"

section \<open>The OER writer and reader (package \<open>oer-utils\<close>)\<close>

text \<open>
  The package \<open>oer-utils\<close> is a dependency, not part of this repository. The model below
  is the OER coding it implements: unsigned integers in big-endian bytes, a length prefix
  of one byte below 128 and otherwise \<open>0x80 + n\<close> followed by the length in \<open>n\<close> bytes,
  variable-length integers and octet strings behind such a prefix. The reader rejects a
  length of more than six bytes (it does not fit a JavaScript number), a variable-length
  integer of no bytes, and a length below the bound \<open>Math.max(128, 1 << (n - 1) * 8)\<close> of
  its \<open>n\<close> length bytes. The shift is JavaScript's, on 32 bits, so the bound is that of
  the shortest form for up to four length bytes, and 128 and 256 for five and six.
\<close>

fun uint_bytes :: "nat \<Rightarrow> nat \<Rightarrow> Buffer" where
  "uint_bytes 0 v = []"
| "uint_bytes (Suc n) v = uint_bytes n (v div 256) @ [of_nat (v mod 256)]"

definition bytes_uint :: "Buffer \<Rightarrow> nat" where
  "bytes_uint bs = foldl (\<lambda>a b. a * 256 + unat b) 0 bs"

text \<open>The number of bytes of the shortest big-endian form of a value (one byte for 0).\<close>

fun uint_size :: "nat \<Rightarrow> nat" where
  "uint_size v = (if v < 256 then 1 else Suc (uint_size (v div 256)))"

declare uint_size.simps [simp del]

subsection \<open>Writer\<close>

text \<open>
  A \<open>Writer\<close> holds the bytes written so far; \<open>new Writer(capacity)\<close> is strict and
  refuses to grow beyond its capacity.
\<close>

record Writer =
  buffer :: Buffer
  capacity :: "nat option"

definition Writer_new :: Writer where
  "Writer_new = \<lparr>buffer = [], capacity = None\<rparr>"

definition Writer_new_capacity :: "nat \<Rightarrow> Writer" where
  "Writer_new_capacity n = (if n = 0 then Writer_new else \<lparr>buffer = [], capacity = Some n\<rparr>)"

definition getBuffer :: "Writer \<Rightarrow> Buffer" where
  "getBuffer w = buffer w"

definition Writer_write :: "Buffer \<Rightarrow> Writer \<Rightarrow> error + Writer" where
  "Writer_write bs w =
     (case capacity w of
        None \<Rightarrow> Inr (w\<lparr>buffer := buffer w @ bs\<rparr>)
      | Some c \<Rightarrow>
          if length (buffer w) + length bs > c then Inl WriterCapacityExceeded
          else Inr (w\<lparr>buffer := buffer w @ bs\<rparr>))"

definition writeUInt :: "nat \<Rightarrow> nat \<Rightarrow> Writer \<Rightarrow> error + Writer" where
  "writeUInt v n w =
     (if n = 0 then Inl UIntLengthInvalid
      else if v \<ge> 256 ^ n then Inl (UIntDoesNotFit v n)
      else Writer_write (uint_bytes n v) w)"

definition writeUInt8 :: "nat \<Rightarrow> Writer \<Rightarrow> error + Writer" where
  "writeUInt8 v w = writeUInt v 1 w"

text \<open>\<open>writeUInt64\<close> of an unsigned \<open>Long\<close>, a 64-bit word.\<close>

definition writeUInt64 :: "64 word \<Rightarrow> Writer \<Rightarrow> error + Writer" where
  "writeUInt64 v w = writeUInt (unat v) 8 w"

definition writeLengthPrefix :: "nat \<Rightarrow> Writer \<Rightarrow> error + Writer" where
  "writeLengthPrefix len w =
     (if len \<le> 127 then writeUInt8 len w
      else let lengthOfLength = uint_size len
           in bindE (writeUInt8 (128 OR lengthOfLength) w) (writeUInt len lengthOfLength))"

definition writeOctetString :: "Buffer \<Rightarrow> nat \<Rightarrow> Writer \<Rightarrow> error + Writer" where
  "writeOctetString b n w =
     (if length b \<noteq> n then Inl (IncorrectOctetStringLength (length b) n) else Writer_write b w)"

definition writeVarOctetString :: "Buffer \<Rightarrow> Writer \<Rightarrow> error + Writer" where
  "writeVarOctetString b w = bindE (writeLengthPrefix (length b) w) (Writer_write b)"

definition writeVarUInt :: "nat \<Rightarrow> Writer \<Rightarrow> error + Writer" where
  "writeVarUInt v w =
     (let lengthOfValue = uint_size v
      in bindE (writeLengthPrefix lengthOfValue w) (writeUInt v lengthOfValue))"

subsection \<open>Reader\<close>

text \<open>
  A \<open>Reader\<close> is a buffer and a cursor; the model keeps the bytes from the cursor on.
  A read returns its value and the reader behind it.
\<close>

type_synonym Reader = Buffer

definition Reader_from :: "Buffer \<Rightarrow> Reader" where
  "Reader_from b = b"

definition readOctetString :: "nat \<Rightarrow> Reader \<Rightarrow> error + (Buffer \<times> Reader)" where
  "readOctetString n r =
     (if length r < n then Inl ReadPastEnd else Inr (take n r, drop n r))"

text \<open>\<open>readUIntBigNum\<close>, \<open>readUIntLong\<close>: any positive length.\<close>

definition readUIntBig :: "nat \<Rightarrow> Reader \<Rightarrow> error + (nat \<times> Reader)" where
  "readUIntBig n r =
     (if n = 0 then Inl UIntLengthInvalid
      else bindE (readOctetString n r) (\<lambda>(b, r). Inr (bytes_uint b, r)))"

text \<open>\<open>readUInt\<close>, \<open>readUIntNumber\<close>: at most six bytes fit a JavaScript number.\<close>

definition readUInt :: "nat \<Rightarrow> Reader \<Rightarrow> error + (nat \<times> Reader)" where
  "readUInt n r = (if n > 6 then Inl UIntTooLargeForNumber else readUIntBig n r)"

definition readUInt8 :: "Reader \<Rightarrow> error + (nat \<times> Reader)" where
  "readUInt8 r = readUInt 1 r"

definition peekUInt8 :: "Reader \<Rightarrow> error + (nat \<times> Reader)" where
  "peekUInt8 r = bindE (readUInt 1 r) (\<lambda>(v, _). Inr (v, r))"

text \<open>\<open>readUInt64Long\<close>: eight bytes as an unsigned \<open>Long\<close>.\<close>

definition readUInt64Long :: "Reader \<Rightarrow> error + (64 word \<times> Reader)" where
  "readUInt64Long r = bindE (readUIntBig 8 r) (\<lambda>(v, r). Inr (of_nat v, r))"

text \<open>
  JavaScript's \<open>1 << n\<close>: the shift count is taken modulo 32, and the result is a
  signed 32-bit integer.
\<close>

definition js_shift_left_1 :: "nat \<Rightarrow> int" where
  "js_shift_left_1 n = (if n mod 32 = 31 then - (2 ^ 31) else 2 ^ (n mod 32))"

definition readLengthPrefix :: "Reader \<Rightarrow> error + (nat \<times> Reader)" where
  "readLengthPrefix r =
     bindE (readUInt8 r) (\<lambda>(len, r).
       if len AND 128 \<noteq> 0 then
         let lengthPrefixLength = len AND 127
         in if lengthPrefixLength = 0 then Inl LengthPrefixNotCanonical
            else bindE (readUInt lengthPrefixLength r) (\<lambda>(actualLength, r).
                   let minLength = max 128 (js_shift_left_1 ((lengthPrefixLength - 1) * 8))
                   in if int actualLength < minLength
                      then Inl LengthPrefixNotCanonical
                      else Inr (actualLength, r))
       else Inr (len, r))"

definition readVarOctetString :: "Reader \<Rightarrow> error + (Buffer \<times> Reader)" where
  "readVarOctetString r = bindE (readLengthPrefix r) (\<lambda>(len, r). readOctetString len r)"

definition readVarUInt :: "Reader \<Rightarrow> error + (nat \<times> Reader)" where
  "readVarUInt r =
     bindE (readVarOctetString r) (\<lambda>(b, r).
       if b = [] then Inl UIntLengthInvalid else Inr (bytes_uint b, r))"

definition skipUInt8 :: "Reader \<Rightarrow> error + Reader" where
  "skipUInt8 r = bindE (readUInt8 r) (\<lambda>(_, r). Inr r)"

definition skipVarOctetString :: "Reader \<Rightarrow> error + Reader" where
  "skipVarOctetString r = bindE (readVarOctetString r) (\<lambda>(_, r). Inr r)"

subsection \<open>Strings\<close>

text \<open>
  A JavaScript string is a sequence of UTF-16 code units. A surrogate is a code unit from
  \<open>0xD800\<close> to \<open>0xDFFF\<close>; a high surrogate followed by a low surrogate is a pair and
  stands for a code point above \<open>0xFFFF\<close>, any other surrogate is a lone one.
\<close>

type_synonym code_unit = "16 word"
type_synonym js_string = "code_unit list"

definition high_surrogate :: "code_unit \<Rightarrow> bool" where
  "high_surrogate u = (0xD800 \<le> unat u \<and> unat u \<le> 0xDBFF)"

definition low_surrogate :: "code_unit \<Rightarrow> bool" where
  "low_surrogate u = (0xDC00 \<le> unat u \<and> unat u \<le> 0xDFFF)"

text \<open>A character and a string literal of the source, all of them ASCII.\<close>

definition code_unit_of :: "char \<Rightarrow> code_unit" where
  "code_unit_of c = of_nat (of_char c)"

definition ascii :: "string \<Rightarrow> js_string" where
  "ascii s = map code_unit_of s"

text \<open>
  \<open>Buffer.from(s)\<close> and \<open>Buffer.from(s, 'utf8')\<close> write the UTF-8 form of the code
  points of \<open>s\<close>: one byte below \<open>0x80\<close>, two below \<open>0x800\<close>, three for the other code
  units that are no surrogates, four for a pair. For a lone surrogate they write the
  UTF-8 form of U+FFFD, the bytes \<open>EF BF BD\<close>.
\<close>

definition REPLACEMENT :: Buffer where
  "REPLACEMENT = [0xEF, 0xBF, 0xBD]"

definition utf8_unit :: "code_unit \<Rightarrow> Buffer" where
  "utf8_unit u =
     (let c = unat u in
      if c < 0x80 then [of_nat c]
      else if c < 0x800 then [of_nat (0xC0 + c div 64), of_nat (0x80 + c mod 64)]
      else if high_surrogate u \<or> low_surrogate u then REPLACEMENT
      else [of_nat (0xE0 + c div 4096), of_nat (0x80 + c div 64 mod 64),
            of_nat (0x80 + c mod 64)])"

definition utf8_pair :: "code_unit \<Rightarrow> code_unit \<Rightarrow> Buffer" where
  "utf8_pair u v =
     (let cp = 0x10000 + (unat u - 0xD800) * 1024 + (unat v - 0xDC00) in
      [of_nat (0xF0 + cp div 262144), of_nat (0x80 + cp div 4096 mod 64),
       of_nat (0x80 + cp div 64 mod 64), of_nat (0x80 + cp mod 64)])"

fun Buffer_from :: "js_string \<Rightarrow> Buffer" where
  "Buffer_from [] = []"
| "Buffer_from [u] = utf8_unit u"
| "Buffer_from (u # v # rest) =
     (if high_surrogate u \<and> low_surrogate v then utf8_pair u v @ Buffer_from rest
      else utf8_unit u @ Buffer_from (v # rest))"

declare Buffer_from.simps [simp del]


text \<open>
  \<open>b.toString()\<close> and \<open>b.toString('utf8')\<close> decode UTF-8 and never fail: every maximal
  ill-formed sequence of bytes (a byte that can start no sequence, or a start of a
  sequence up to the byte that cannot continue it, or that the buffer's end cuts off) is
  replaced by U+FFFD, and decoding goes on at the byte that did not fit. The second byte
  of a sequence is restricted after \<open>E0\<close>, \<open>ED\<close>, \<open>F0\<close> and \<open>F4\<close>, which excludes
  overlong forms, surrogates and code points above \<open>0x10FFFF\<close>. A code point above
  \<open>0xFFFF\<close> becomes a surrogate pair.
\<close>

definition continuation :: "nat \<Rightarrow> nat \<Rightarrow> byte \<Rightarrow> bool" where
  "continuation lower upper b = (lower \<le> unat b \<and> unat b \<le> upper)"

definition code_point_units :: "nat \<Rightarrow> js_string" where
  "code_point_units cp =
     (if cp < 0x10000 then [of_nat cp]
      else [of_nat (0xD800 + (cp - 0x10000) div 1024),
            of_nat (0xDC00 + (cp - 0x10000) mod 1024)])"

fun toString :: "Buffer \<Rightarrow> js_string" where
  "toString [] = []"
| "toString (b0 # bs) =
     (let a = unat b0 in
      if a < 0x80 then of_nat a # toString bs
      else if 0xC2 \<le> a \<and> a \<le> 0xDF then
        (case bs of
           [] \<Rightarrow> [0xFFFD]
         | b1 # bs1 \<Rightarrow>
             if continuation 0x80 0xBF b1
             then code_point_units (a mod 32 * 64 + unat b1 mod 64) @ toString bs1
             else 0xFFFD # toString bs)
      else if 0xE0 \<le> a \<and> a \<le> 0xEF then
        (case bs of
           [] \<Rightarrow> [0xFFFD]
         | b1 # bs1 \<Rightarrow>
             if \<not> continuation (if a = 0xE0 then 0xA0 else 0x80)
                      (if a = 0xED then 0x9F else 0xBF) b1
             then 0xFFFD # toString bs
             else
               (case bs1 of
                  [] \<Rightarrow> [0xFFFD]
                | b2 # bs2 \<Rightarrow>
                    if continuation 0x80 0xBF b2
                    then code_point_units
                           ((a mod 16 * 64 + unat b1 mod 64) * 64 + unat b2 mod 64)
                         @ toString bs2
                    else 0xFFFD # toString bs1))
      else if 0xF0 \<le> a \<and> a \<le> 0xF4 then
        (case bs of
           [] \<Rightarrow> [0xFFFD]
         | b1 # bs1 \<Rightarrow>
             if \<not> continuation (if a = 0xF0 then 0x90 else 0x80)
                      (if a = 0xF4 then 0x8F else 0xBF) b1
             then 0xFFFD # toString bs
             else
               (case bs1 of
                  [] \<Rightarrow> [0xFFFD]
                | b2 # bs2 \<Rightarrow>
                    if \<not> continuation 0x80 0xBF b2 then 0xFFFD # toString bs1
                    else
                      (case bs2 of
                         [] \<Rightarrow> [0xFFFD]
                       | b3 # bs3 \<Rightarrow>
                           if continuation 0x80 0xBF b3
                           then code_point_units
                                  (((a mod 8 * 64 + unat b1 mod 64) * 64 + unat b2 mod 64) * 64
                                     + unat b3 mod 64)
                                @ toString bs3
                           else 0xFFFD # toString bs2)))
      else 0xFFFD # toString bs)"

declare toString.simps [simp del]

text \<open>A string without a lone surrogate.\<close>

fun well_formed :: "js_string \<Rightarrow> bool" where
  "well_formed [] = True"
| "well_formed [u] = (\<not> high_surrogate u \<and> \<not> low_surrogate u)"
| "well_formed (u # v # rest) =
     (if high_surrogate u \<and> low_surrogate v then well_formed rest
      else \<not> high_surrogate u \<and> \<not> low_surrogate u \<and> well_formed (v # rest))"

declare well_formed.simps [simp del]

subsection \<open>The wire form\<close>

text \<open>The bytes of a length prefix, of an octet string and of an integer behind one.\<close>

definition len_prefix :: "nat \<Rightarrow> Buffer" where
  "len_prefix n =
     (if n \<le> 127 then [of_nat n]
      else of_nat (128 OR uint_size n) # uint_bytes (uint_size n) n)"

definition var_octets :: "Buffer \<Rightarrow> Buffer" where
  "var_octets b = len_prefix (length b) @ b"

definition var_uint :: "nat \<Rightarrow> Buffer" where
  "var_uint v = len_prefix (uint_size v) @ uint_bytes (uint_size v) v"

definition Writer_append :: "Writer \<Rightarrow> Buffer \<Rightarrow> Writer" where
  "Writer_append w bs = w\<lparr>buffer := buffer w @ bs\<rparr>"

section \<open>Encryption (\<open>crypto\<close>)\<close>

text \<open>
  AES-256-GCM and HMAC-SHA256 are primitives of Node's \<open>crypto\<close> module, not code of
  this repository; they are parameters of the model. \<open>seal\<close> takes key, IV and the whole
  plaintext (the buffers passed to \<open>cipher.update\<close>, in order) and returns the ciphertext
  and the authentication tag; \<open>unseal\<close> takes key, nonce, tag and ciphertext and returns
  the plaintext, or \<open>None\<close> where \<open>createDecipheriv\<close>, \<open>setAuthTag\<close> or
  \<open>decipher.final\<close> throws.
\<close>

record aead =
  seal :: "Buffer \<Rightarrow> Buffer \<Rightarrow> Buffer \<Rightarrow> Buffer \<times> Buffer"
  unseal :: "Buffer \<Rightarrow> Buffer \<Rightarrow> Buffer \<Rightarrow> Buffer \<Rightarrow> Buffer option"

type_synonym hmac = "Buffer \<Rightarrow> Buffer \<Rightarrow> Buffer"

definition IV_LENGTH :: nat where "IV_LENGTH = 12"
definition AUTH_TAG_LENGTH :: nat where "AUTH_TAG_LENGTH = 16"
definition ENCRYPTION_OVERHEAD :: nat where "ENCRYPTION_OVERHEAD = 28"


text \<open>
  What the theorems assume of the cipher: for a 32-byte key and a 12-byte IV, the
  ciphertext is as long as the plaintext, the tag has 16 bytes, and \<open>unseal\<close> with the
  same key, IV and tag returns the plaintext.
\<close>

definition gcm_like :: "aead \<Rightarrow> bool" where
  "gcm_like A =
     (\<forall>key iv p. length key = 32 \<and> length iv = 12 \<longrightarrow>
        length (fst (seal A key iv p)) = length p \<and>
        length (snd (seal A key iv p)) = 16 \<and>
        unseal A key iv (snd (seal A key iv p)) (fst (seal A key iv p)) = Some p)"

text \<open>
  \<open>encrypt\<close>: \<open>iv\<close> is the value \<open>crypto.randomBytes(IV_LENGTH)\<close> returns in this call.
  \<open>createCipheriv\<close> throws for a key that is not 32 bytes long.
\<close>

definition encrypt :: "aead \<Rightarrow> Buffer \<Rightarrow> Buffer \<Rightarrow> Buffer list \<Rightarrow> error + Buffer" where
  "encrypt A pskEncryptionKey iv buffers =
     (if length pskEncryptionKey \<noteq> 32 then Inl CipherError
      else let (ciphertext, tag) = seal A pskEncryptionKey iv (concat buffers)
           in Inr (concat [iv, tag, ciphertext]))"

definition decrypt :: "aead \<Rightarrow> Buffer \<Rightarrow> Buffer \<Rightarrow> error + Buffer" where
  "decrypt A pskEncryptionKey d =
     (if \<not> length d > 0 then Inl (AssertionError ''cannot decrypt empty buffer'')
      else let nonce = take IV_LENGTH d;
               tag = take AUTH_TAG_LENGTH (drop IV_LENGTH d);
               encrypted = drop (IV_LENGTH + AUTH_TAG_LENGTH) d
           in if length pskEncryptionKey \<noteq> 32 then Inl CipherError
              else case unseal A pskEncryptionKey nonce tag encrypted of
                     None \<Rightarrow> Inl CipherError
                   | Some p \<Rightarrow> Inr p)"


text \<open>
  Modelled from the spec: \<open>generateReceiptHMAC\<close> is imported by \<open>util/receipt.ts\<close> from
  \<open>crypto\<close> and is not among the sources; by the spec the receipt carries
  \<open>HMAC-SHA256(receipt_secret, bytes[0..26])\<close>.
\<close>

definition generateReceiptHMAC :: "hmac \<Rightarrow> Buffer \<Rightarrow> Buffer \<Rightarrow> Buffer" where
  "generateReceiptHMAC hm secret message = hm secret message"

text \<open>A toy cipher and a toy MAC that meet the assumptions, for the concrete instances.\<close>

definition toy_aead :: aead where
  "toy_aead =
     \<lparr>seal = (\<lambda>key iv p. (map (\<lambda>b. b XOR 90) p, replicate 16 (of_nat (length p)))),
      unseal = (\<lambda>key iv tag c.
        if tag = replicate 16 (of_nat (length c)) then Some (map (\<lambda>b. b XOR 90) c) else None)\<rparr>"

definition toy_hmac :: hmac where
  "toy_hmac key msg = replicate 32 (of_nat (length key + length msg))"

section \<open>Packets and frames (\<open>protocol.ts\<close>)\<close>

definition VERSION :: nat where "VERSION = 1"

definition ZERO_BYTES :: Buffer where "ZERO_BYTES = replicate 32 0"

definition MAX_UINT64 :: nat where "MAX_UINT64 = 18446744073709551615"

datatype IlpPacketType = Prepare | Fulfill | Reject

fun IlpPacketType_value :: "IlpPacketType \<Rightarrow> nat" where
  "IlpPacketType_value Prepare = 12"
| "IlpPacketType_value Fulfill = 13"
| "IlpPacketType_value Reject = 14"

datatype FrameType =
    Padding
  | ConnectionClose | ConnectionNewAddress | ConnectionMaxData | ConnectionDataBlocked
  | ConnectionMaxStreamId | ConnectionStreamIdBlocked
  | StreamClose | StreamMoney | StreamMaxMoney | StreamMoneyBlocked
  | StreamData | StreamMaxData | StreamDataBlocked

fun FrameType_value :: "FrameType \<Rightarrow> nat" where
  "FrameType_value Padding = 0x00"
| "FrameType_value ConnectionClose = 0x01"
| "FrameType_value ConnectionNewAddress = 0x02"
| "FrameType_value ConnectionMaxData = 0x03"
| "FrameType_value ConnectionDataBlocked = 0x04"
| "FrameType_value ConnectionMaxStreamId = 0x05"
| "FrameType_value ConnectionStreamIdBlocked = 0x06"
| "FrameType_value StreamClose = 0x10"
| "FrameType_value StreamMoney = 0x11"
| "FrameType_value StreamMaxMoney = 0x12"
| "FrameType_value StreamMoneyBlocked = 0x13"
| "FrameType_value StreamData = 0x14"
| "FrameType_value StreamMaxData = 0x15"
| "FrameType_value StreamDataBlocked = 0x16"

datatype ErrorCode =
    NoError | InternalError | ServerBusy | FlowControlError | StreamIdError
  | StreamStateError | FinalOffsetError | FrameFormatError | ProtocolViolation
  | ApplicationError

fun ErrorCode_value :: "ErrorCode \<Rightarrow> nat" where
  "ErrorCode_value NoError = 0x01"
| "ErrorCode_value InternalError = 0x02"
| "ErrorCode_value ServerBusy = 0x03"
| "ErrorCode_value FlowControlError = 0x04"
| "ErrorCode_value StreamIdError = 0x05"
| "ErrorCode_value StreamStateError = 0x06"
| "ErrorCode_value FinalOffsetError = 0x07"
| "ErrorCode_value FrameFormatError = 0x08"
| "ErrorCode_value ProtocolViolation = 0x09"
| "ErrorCode_value ApplicationError = 0x0a"

text \<open>
  The reverse mapping \<open>ErrorCode[n]\<close> of the TypeScript enum: the name of a number,
  \<open>undefined\<close> (\<open>None\<close>) for a number that is not in the enum.
\<close>

definition ErrorCode_name :: "nat \<Rightarrow> ErrorCode option" where
  "ErrorCode_name n =
     (if n = 0x01 then Some NoError
      else if n = 0x02 then Some InternalError
      else if n = 0x03 then Some ServerBusy
      else if n = 0x04 then Some FlowControlError
      else if n = 0x05 then Some StreamIdError
      else if n = 0x06 then Some StreamStateError
      else if n = 0x07 then Some FinalOffsetError
      else if n = 0x08 then Some FrameFormatError
      else if n = 0x09 then Some ProtocolViolation
      else if n = 0x0a then Some ApplicationError
      else None)"

text \<open>
  The frame classes, one constructor each, with the fields in the order of the class's
  constructor. A \<open>BigNumber\<close> field is a natural number: a frame read from the wire holds
  nothing else, and the writer rejects a negative or fractional value. The assertions of
  the constructors (\<open>isInteger() && isPositive()\<close>) and the replacement of an infinite
  \<open>receiveMax\<close> by \<open>MAX_UINT64\<close> never apply to natural numbers. An \<open>errorCode\<close> is the
  name of an error code, or \<open>undefined\<close>.

  \<open>ForeignFrame t c\<close> is not a class of the module: it stands for a frame object of
  another type (a later version's, a test's), which by the spec's frame envelope writes
  its type byte and its contents as a \<open>varOctetString\<close>. \<open>parseFrame\<close> never returns one.
\<close>

datatype Frame =
    ConnectionCloseFrame "ErrorCode option" js_string
  | ConnectionNewAddressFrame js_string
  | ConnectionMaxDataFrame nat
  | ConnectionDataBlockedFrame nat
  | ConnectionMaxStreamIdFrame nat
  | ConnectionStreamIdBlockedFrame nat
  | StreamMoneyFrame nat nat
  | StreamMaxMoneyFrame nat nat nat
  | StreamMoneyBlockedFrame nat nat nat
  | StreamCloseFrame nat "ErrorCode option" js_string
  | StreamDataFrame nat nat Buffer
  | StreamMaxDataFrame nat nat
  | StreamDataBlockedFrame nat nat
  | ForeignFrame nat Buffer

record Packet =
  sequence :: nat
  ilpPacketType :: nat
  prepareAmount :: nat
  frames :: "Frame list"

definition assertType :: "Reader \<Rightarrow> FrameType \<Rightarrow> error + Reader" where
  "assertType reader frameType =
     bindE (readUInt8 reader) (\<lambda>(type, reader).
       if type \<noteq> FrameType_value frameType
       then Inl (CannotReadFrame (FrameType_value frameType) type)
       else Inr reader)"

text \<open>\<open>writeUInt8(ErrorCode[this.errorCode])\<close>: \<open>undefined\<close> is not an integer.\<close>

definition writeErrorCode :: "ErrorCode option \<Rightarrow> Writer \<Rightarrow> error + Writer" where
  "writeErrorCode errorCode w =
     (case errorCode of
        None \<Rightarrow> Inl UIntNotAnInteger
      | Some c \<Rightarrow> writeUInt8 (ErrorCode_value c) w)"

subsection \<open>\<open>writeTo\<close> of the frame classes\<close>

text \<open>
  Each \<open>writeTo\<close> writes the type byte to \<open>writer\<close>, the fields to a new writer
  \<open>contents\<close>, and the bytes of \<open>contents\<close> as a \<open>varOctetString\<close> to \<open>writer\<close>.
\<close>

fun Frame_type :: "Frame \<Rightarrow> nat" where
  "Frame_type (ConnectionCloseFrame _ _) = FrameType_value ConnectionClose"
| "Frame_type (ConnectionNewAddressFrame _) = FrameType_value ConnectionNewAddress"
| "Frame_type (ConnectionMaxDataFrame _) = FrameType_value ConnectionMaxData"
| "Frame_type (ConnectionDataBlockedFrame _) = FrameType_value ConnectionDataBlocked"
| "Frame_type (ConnectionMaxStreamIdFrame _) = FrameType_value ConnectionMaxStreamId"
| "Frame_type (ConnectionStreamIdBlockedFrame _) = FrameType_value ConnectionStreamIdBlocked"
| "Frame_type (StreamMoneyFrame _ _) = FrameType_value StreamMoney"
| "Frame_type (StreamMaxMoneyFrame _ _ _) = FrameType_value StreamMaxMoney"
| "Frame_type (StreamMoneyBlockedFrame _ _ _) = FrameType_value StreamMoneyBlocked"
| "Frame_type (StreamCloseFrame _ _ _) = FrameType_value StreamClose"
| "Frame_type (StreamDataFrame _ _ _) = FrameType_value StreamData"
| "Frame_type (StreamMaxDataFrame _ _) = FrameType_value StreamMaxData"
| "Frame_type (StreamDataBlockedFrame _ _) = FrameType_value StreamDataBlocked"
| "Frame_type (ForeignFrame t _) = t"

fun Frame_writeContents :: "Frame \<Rightarrow> Writer \<Rightarrow> error + Writer" where
  "Frame_writeContents (ConnectionCloseFrame errorCode errorMessage) contents =
     bindE (writeErrorCode errorCode contents)
       (writeVarOctetString (Buffer_from errorMessage))"
| "Frame_writeContents (ConnectionNewAddressFrame sourceAccount) contents =
     writeVarOctetString (Buffer_from sourceAccount) contents"
| "Frame_writeContents (ConnectionMaxDataFrame maxOffset) contents =
     writeVarUInt maxOffset contents"
| "Frame_writeContents (ConnectionDataBlockedFrame maxOffset) contents =
     writeVarUInt maxOffset contents"
| "Frame_writeContents (ConnectionMaxStreamIdFrame maxStreamId) contents =
     writeVarUInt maxStreamId contents"
| "Frame_writeContents (ConnectionStreamIdBlockedFrame maxStreamId) contents =
     writeVarUInt maxStreamId contents"
| "Frame_writeContents (StreamMoneyFrame streamId shares) contents =
     bindE (writeVarUInt streamId contents) (writeVarUInt shares)"
| "Frame_writeContents (StreamMaxMoneyFrame streamId receiveMax totalReceived) contents =
     bindE (bindE (writeVarUInt streamId contents) (writeVarUInt receiveMax))
       (writeVarUInt totalReceived)"
| "Frame_writeContents (StreamMoneyBlockedFrame streamId sendMax totalSent) contents =
     bindE (bindE (writeVarUInt streamId contents) (writeVarUInt sendMax))
       (writeVarUInt totalSent)"
| "Frame_writeContents (StreamCloseFrame streamId errorCode errorMessage) contents =
     bindE (bindE (writeVarUInt streamId contents) (writeErrorCode errorCode))
       (writeVarOctetString (Buffer_from errorMessage))"
| "Frame_writeContents (StreamDataFrame streamId off d) contents =
     bindE (bindE (writeVarUInt streamId contents) (writeVarUInt off))
       (writeVarOctetString d)"
| "Frame_writeContents (StreamMaxDataFrame streamId maxOffset) contents =
     bindE (writeVarUInt streamId contents) (writeVarUInt maxOffset)"
| "Frame_writeContents (StreamDataBlockedFrame streamId maxOffset) contents =
     bindE (writeVarUInt streamId contents) (writeVarUInt maxOffset)"
| "Frame_writeContents (ForeignFrame t c) contents = Writer_write c contents"

definition Frame_writeTo :: "Frame \<Rightarrow> Writer \<Rightarrow> error + Writer" where
  "Frame_writeTo frame writer =
     bindE (writeUInt8 (Frame_type frame) writer) (\<lambda>writer.
     bindE (Frame_writeContents frame Writer_new) (\<lambda>contents.
       writeVarOctetString (getBuffer contents) writer))"

subsection \<open>\<open>fromBuffer\<close> of the frame classes\<close>

text \<open>
  Each \<open>fromBuffer\<close> checks the type byte, takes the contents as a \<open>varOctetString\<close> and
  reads the fields from a reader on the contents; bytes of the contents behind the last
  field are ignored.
\<close>

definition ConnectionNewAddressFrame_fromBuffer :: "Reader \<Rightarrow> error + (Frame \<times> Reader)" where
  "ConnectionNewAddressFrame_fromBuffer reader =
     bindE (assertType reader ConnectionNewAddress) (\<lambda>reader.
     bindE (readVarOctetString reader) (\<lambda>(b, reader). let contents = Reader_from b in
     bindE (readVarOctetString contents) (\<lambda>(sourceAccount, contents).
       Inr (ConnectionNewAddressFrame (toString sourceAccount), reader))))"

definition ConnectionCloseFrame_fromBuffer :: "Reader \<Rightarrow> error + (Frame \<times> Reader)" where
  "ConnectionCloseFrame_fromBuffer reader =
     bindE (assertType reader ConnectionClose) (\<lambda>reader.
     bindE (readVarOctetString reader) (\<lambda>(b, reader). let contents = Reader_from b in
     bindE (readUInt8 contents) (\<lambda>(code, contents). let errorCode = ErrorCode_name code in
     bindE (readVarOctetString contents) (\<lambda>(errorMessage, contents).
       Inr (ConnectionCloseFrame errorCode (toString errorMessage), reader)))))"

definition ConnectionMaxDataFrame_fromBuffer :: "Reader \<Rightarrow> error + (Frame \<times> Reader)" where
  "ConnectionMaxDataFrame_fromBuffer reader =
     bindE (assertType reader ConnectionMaxData) (\<lambda>reader.
     bindE (readVarOctetString reader) (\<lambda>(b, reader). let contents = Reader_from b in
     bindE (readVarUInt contents) (\<lambda>(maxOffset, contents).
       Inr (ConnectionMaxDataFrame maxOffset, reader))))"

definition ConnectionDataBlockedFrame_fromBuffer :: "Reader \<Rightarrow> error + (Frame \<times> Reader)" where
  "ConnectionDataBlockedFrame_fromBuffer reader =
     bindE (assertType reader ConnectionDataBlocked) (\<lambda>reader.
     bindE (readVarOctetString reader) (\<lambda>(b, reader). let contents = Reader_from b in
     bindE (readVarUInt contents) (\<lambda>(maxOffset, contents).
       Inr (ConnectionDataBlockedFrame maxOffset, reader))))"

definition ConnectionMaxStreamIdFrame_fromBuffer :: "Reader \<Rightarrow> error + (Frame \<times> Reader)" where
  "ConnectionMaxStreamIdFrame_fromBuffer reader =
     bindE (assertType reader ConnectionMaxStreamId) (\<lambda>reader.
     bindE (readVarOctetString reader) (\<lambda>(b, reader). let contents = Reader_from b in
     bindE (readVarUInt contents) (\<lambda>(maxStreamId, contents).
       Inr (ConnectionMaxStreamIdFrame maxStreamId, reader))))"

definition ConnectionStreamIdBlockedFrame_fromBuffer :: "Reader \<Rightarrow> error + (Frame \<times> Reader)" where
  "ConnectionStreamIdBlockedFrame_fromBuffer reader =
     bindE (assertType reader ConnectionStreamIdBlocked) (\<lambda>reader.
     bindE (readVarOctetString reader) (\<lambda>(b, reader). let contents = Reader_from b in
     bindE (readVarUInt contents) (\<lambda>(maxStreamId, contents).
       Inr (ConnectionStreamIdBlockedFrame maxStreamId, reader))))"

definition StreamMoneyFrame_fromBuffer :: "Reader \<Rightarrow> error + (Frame \<times> Reader)" where
  "StreamMoneyFrame_fromBuffer reader =
     bindE (assertType reader StreamMoney) (\<lambda>reader.
     bindE (readVarOctetString reader) (\<lambda>(b, reader). let contents = Reader_from b in
     bindE (readVarUInt contents) (\<lambda>(streamId, contents).
     bindE (readVarUInt contents) (\<lambda>(amount, contents).
       Inr (StreamMoneyFrame streamId amount, reader)))))"

definition StreamMaxMoneyFrame_fromBuffer :: "Reader \<Rightarrow> error + (Frame \<times> Reader)" where
  "StreamMaxMoneyFrame_fromBuffer reader =
     bindE (assertType reader StreamMaxMoney) (\<lambda>reader.
     bindE (readVarOctetString reader) (\<lambda>(b, reader). let contents = Reader_from b in
     bindE (readVarUInt contents) (\<lambda>(streamId, contents).
     bindE (readVarUInt contents) (\<lambda>(receiveMax, contents).
     bindE (readVarUInt contents) (\<lambda>(totalReceived, contents).
       Inr (StreamMaxMoneyFrame streamId receiveMax totalReceived, reader))))))"

definition StreamMoneyBlockedFrame_fromBuffer :: "Reader \<Rightarrow> error + (Frame \<times> Reader)" where
  "StreamMoneyBlockedFrame_fromBuffer reader =
     bindE (assertType reader StreamMoneyBlocked) (\<lambda>reader.
     bindE (readVarOctetString reader) (\<lambda>(b, reader). let contents = Reader_from b in
     bindE (readVarUInt contents) (\<lambda>(streamId, contents).
     bindE (readVarUInt contents) (\<lambda>(sendMax, contents).
     bindE (readVarUInt contents) (\<lambda>(totalSent, contents).
       Inr (StreamMoneyBlockedFrame streamId sendMax totalSent, reader))))))"

definition StreamCloseFrame_fromBuffer :: "Reader \<Rightarrow> error + (Frame \<times> Reader)" where
  "StreamCloseFrame_fromBuffer reader =
     bindE (assertType reader StreamClose) (\<lambda>reader.
     bindE (readVarOctetString reader) (\<lambda>(b, reader). let contents = Reader_from b in
     bindE (readVarUInt contents) (\<lambda>(streamId, contents).
     bindE (readUInt8 contents) (\<lambda>(code, contents). let errorCode = ErrorCode_name code in
     bindE (readVarOctetString contents) (\<lambda>(errorMessage, contents).
       Inr (StreamCloseFrame streamId errorCode (toString errorMessage), reader))))))"

definition StreamDataFrame_fromBuffer :: "Reader \<Rightarrow> error + (Frame \<times> Reader)" where
  "StreamDataFrame_fromBuffer reader =
     bindE (assertType reader StreamData) (\<lambda>reader.
     bindE (readVarOctetString reader) (\<lambda>(b, reader). let contents = Reader_from b in
     bindE (readVarUInt contents) (\<lambda>(streamId, contents).
     bindE (readVarUInt contents) (\<lambda>(off, contents).
     bindE (readVarOctetString contents) (\<lambda>(d, contents).
       Inr (StreamDataFrame streamId off d, reader))))))"

definition StreamMaxDataFrame_fromBuffer :: "Reader \<Rightarrow> error + (Frame \<times> Reader)" where
  "StreamMaxDataFrame_fromBuffer reader =
     bindE (assertType reader StreamMaxData) (\<lambda>reader.
     bindE (readVarOctetString reader) (\<lambda>(b, reader). let contents = Reader_from b in
     bindE (readVarUInt contents) (\<lambda>(streamId, contents).
     bindE (readVarUInt contents) (\<lambda>(maxOffset, contents).
       Inr (StreamMaxDataFrame streamId maxOffset, reader)))))"

definition StreamDataBlockedFrame_fromBuffer :: "Reader \<Rightarrow> error + (Frame \<times> Reader)" where
  "StreamDataBlockedFrame_fromBuffer reader =
     bindE (assertType reader StreamDataBlocked) (\<lambda>reader.
     bindE (readVarOctetString reader) (\<lambda>(b, reader). let contents = Reader_from b in
     bindE (readVarUInt contents) (\<lambda>(streamId, contents).
     bindE (readVarUInt contents) (\<lambda>(maxOffset, contents).
       Inr (StreamDataBlockedFrame streamId maxOffset, reader)))))"

subsection \<open>\<open>parseFrame\<close>\<close>

definition some_frame :: "error + (Frame \<times> Reader) \<Rightarrow> error + (Frame option \<times> Reader)" where
  "some_frame m = bindE m (\<lambda>(frame, reader). Inr (Some frame, reader))"

definition parseFrame :: "Reader \<Rightarrow> error + (Frame option \<times> Reader)" where
  "parseFrame reader =
     bindE (peekUInt8 reader) (\<lambda>(type, reader).
       if type = FrameType_value ConnectionClose then
         some_frame (ConnectionCloseFrame_fromBuffer reader)
       else if type = FrameType_value ConnectionNewAddress then
         some_frame (ConnectionNewAddressFrame_fromBuffer reader)
       else if type = FrameType_value ConnectionMaxData then
         some_frame (ConnectionMaxDataFrame_fromBuffer reader)
       else if type = FrameType_value ConnectionDataBlocked then
         some_frame (ConnectionDataBlockedFrame_fromBuffer reader)
       else if type = FrameType_value ConnectionMaxStreamId then
         some_frame (ConnectionMaxStreamIdFrame_fromBuffer reader)
       else if type = FrameType_value ConnectionStreamIdBlocked then
         some_frame (ConnectionStreamIdBlockedFrame_fromBuffer reader)
       else if type = FrameType_value StreamClose then
         some_frame (StreamCloseFrame_fromBuffer reader)
       else if type = FrameType_value StreamMoney then
         some_frame (StreamMoneyFrame_fromBuffer reader)
       else if type = FrameType_value StreamMaxMoney then
         some_frame (StreamMaxMoneyFrame_fromBuffer reader)
       else if type = FrameType_value StreamMoneyBlocked then
         some_frame (StreamMoneyBlockedFrame_fromBuffer reader)
       else if type = FrameType_value StreamData then
         some_frame (StreamDataFrame_fromBuffer reader)
       else if type = FrameType_value StreamMaxData then
         some_frame (StreamMaxDataFrame_fromBuffer reader)
       else if type = FrameType_value StreamDataBlocked then
         some_frame (StreamDataBlockedFrame_fromBuffer reader)
       else
         bindE (skipUInt8 reader) (\<lambda>reader.
         bindE (skipVarOctetString reader) (\<lambda>reader.
           Inr (None, reader))))"

subsection \<open>\<open>Packet\<close>\<close>

text \<open>The loop \<open>for (let frame of this.frames) frame.writeTo(writer)\<close>.\<close>

fun writeFrames :: "Frame list \<Rightarrow> Writer \<Rightarrow> error + Writer" where
  "writeFrames [] writer = Inr writer"
| "writeFrames (frame # rest) writer = bindE (Frame_writeTo frame writer) (writeFrames rest)"

definition Packet_writeTo :: "Packet \<Rightarrow> Writer \<Rightarrow> error + Writer" where
  "Packet_writeTo p writer =
     bindE (writeUInt8 VERSION writer) (\<lambda>writer.
     bindE (writeUInt8 (ilpPacketType p) writer) (\<lambda>writer.
     bindE (writeVarUInt (sequence p) writer) (\<lambda>writer.
     bindE (writeVarUInt (prepareAmount p) writer) (\<lambda>writer.
     bindE (writeVarUInt (length (frames p)) writer) (\<lambda>writer.
       writeFrames (frames p) writer)))))"

definition Packet_serialize :: "Packet \<Rightarrow> error + Buffer" where
  "Packet_serialize p =
     bindE (Packet_writeTo p Writer_new) (\<lambda>writer. Inr (getBuffer writer))"

text \<open>
  The loop \<open>for (let i = 0; i < numFrames; i++)\<close> of \<open>_deserializeUnencrypted\<close>, with the
  frames pushed so far.
\<close>

fun parseFrames :: "nat \<Rightarrow> Reader \<Rightarrow> Frame list \<Rightarrow> error + Frame list" where
  "parseFrames 0 reader fs = Inr fs"
| "parseFrames (Suc n) reader fs =
     bindE (parseFrame reader) (\<lambda>(frame, reader).
       case frame of
         Some f \<Rightarrow> parseFrames n reader (fs @ [f])
       | None \<Rightarrow> parseFrames n reader fs)"

definition Packet_deserializeUnencrypted :: "Buffer \<Rightarrow> error + Packet" where
  "Packet_deserializeUnencrypted b =
     (let reader = Reader_from b in
      bindE (readUInt8 reader) (\<lambda>(version, reader).
        if version \<noteq> VERSION then Inl (UnsupportedProtocolVersion version)
        else
      bindE (readUInt8 reader) (\<lambda>(ilpPacketType, reader).
      bindE (readVarUInt reader) (\<lambda>(sequence, reader).
      bindE (readVarUInt reader) (\<lambda>(packetAmount, reader).
      bindE (readVarUInt reader) (\<lambda>(numFrames, reader).
      bindE (parseFrames numFrames reader []) (\<lambda>frames.
        Inr \<lparr>sequence = sequence, ilpPacketType = ilpPacketType,
             prepareAmount = packetAmount, frames = frames\<rparr>)))))))"

definition decryptAndDeserialize :: "aead \<Rightarrow> Buffer \<Rightarrow> Buffer \<Rightarrow> error + Packet" where
  "decryptAndDeserialize A sharedSecret b =
     (case decrypt A sharedSecret b of
        Inl err \<Rightarrow> Inl (Error
          ''Unable to decrypt packet. Data was corrupted or packet was encrypted with the wrong key'')
      | Inr decrypted \<Rightarrow> Packet_deserializeUnencrypted decrypted)"

text \<open>
  JavaScript's \<open>%\<close> truncates towards zero, and \<open>buf.slice(0, end)\<close> counts a negative
  \<open>end\<close> from the end of the buffer.
\<close>

definition js_rem :: "int \<Rightarrow> int \<Rightarrow> int" where
  "js_rem a b = sgn a * (\<bar>a\<bar> mod \<bar>b\<bar>)"

definition Buffer_slice0 :: "Buffer \<Rightarrow> int \<Rightarrow> Buffer" where
  "Buffer_slice0 b e =
     (let n = int (length b);
          e' = (if e < 0 then max (n + e) 0 else min e n)
      in take (nat e') b)"

text \<open>
  \<open>serializeAndEncrypt\<close>: \<open>iv\<close> is the IV drawn by \<open>encrypt\<close>; the loop pushes
  \<open>Math.floor(paddingSize / 32)\<close> blocks of 32 zero bytes, none when that is negative.
\<close>

definition serializeAndEncrypt ::
  "aead \<Rightarrow> Buffer \<Rightarrow> Buffer \<Rightarrow> int option \<Rightarrow> Packet \<Rightarrow> error + Buffer" where
  "serializeAndEncrypt A sharedSecret iv padPacketToSize p =
     bindE (Packet_serialize p) (\<lambda>serialized.
       case padPacketToSize of
         Some padSize \<Rightarrow>
           let paddingSize = padSize - int ENCRYPTION_OVERHEAD - int (length serialized);
               args = [serialized] @ replicate (nat (paddingSize div 32)) ZERO_BYTES
                      @ [Buffer_slice0 ZERO_BYTES (js_rem paddingSize 32)]
           in encrypt A sharedSecret iv args
       | None \<Rightarrow> encrypt A sharedSecret iv [serialized])"

text \<open>
  The packets of the round-trip claims: every number an unsigned 64-bit integer, the type
  a byte, every error code defined, fewer than \<open>2^32\<close> frames (the bound of a JavaScript
  array), every string without a lone surrogate, and the UTF-8 form of a string and the
  data shorter than \<open>2^47\<close> bytes (a Node 10 buffer has at most \<open>2^31 - 1\<close>), so that
  the contents of a frame fit a length of six bytes.
\<close>

definition uint64 :: "nat \<Rightarrow> bool" where
  "uint64 n = (n \<le> MAX_UINT64)"

fun Frame_in_range :: "Frame \<Rightarrow> bool" where
  "Frame_in_range (ConnectionCloseFrame errorCode errorMessage) =
     (errorCode \<noteq> None \<and> well_formed errorMessage \<and>
      length (Buffer_from errorMessage) < 2 ^ 47)"
| "Frame_in_range (ConnectionNewAddressFrame sourceAccount) =
     (well_formed sourceAccount \<and> length (Buffer_from sourceAccount) < 2 ^ 47)"
| "Frame_in_range (ConnectionMaxDataFrame maxOffset) = uint64 maxOffset"
| "Frame_in_range (ConnectionDataBlockedFrame maxOffset) = uint64 maxOffset"
| "Frame_in_range (ConnectionMaxStreamIdFrame maxStreamId) = uint64 maxStreamId"
| "Frame_in_range (ConnectionStreamIdBlockedFrame maxStreamId) = uint64 maxStreamId"
| "Frame_in_range (StreamMoneyFrame streamId shares) = (uint64 streamId \<and> uint64 shares)"
| "Frame_in_range (StreamMaxMoneyFrame streamId receiveMax totalReceived) =
     (uint64 streamId \<and> uint64 receiveMax \<and> uint64 totalReceived)"
| "Frame_in_range (StreamMoneyBlockedFrame streamId sendMax totalSent) =
     (uint64 streamId \<and> uint64 sendMax \<and> uint64 totalSent)"
| "Frame_in_range (StreamCloseFrame streamId errorCode errorMessage) =
     (uint64 streamId \<and> errorCode \<noteq> None \<and> well_formed errorMessage \<and>
      length (Buffer_from errorMessage) < 2 ^ 47)"
| "Frame_in_range (StreamDataFrame streamId off d) =
     (uint64 streamId \<and> uint64 off \<and> length d < 2 ^ 47)"
| "Frame_in_range (StreamMaxDataFrame streamId maxOffset) = (uint64 streamId \<and> uint64 maxOffset)"
| "Frame_in_range (StreamDataBlockedFrame streamId maxOffset) =
     (uint64 streamId \<and> uint64 maxOffset)"
| "Frame_in_range (ForeignFrame t c) = False"

definition Packet_in_range :: "Packet \<Rightarrow> bool" where
  "Packet_in_range p =
     (uint64 (sequence p) \<and> ilpPacketType p \<le> 255 \<and> uint64 (prepareAmount p) \<and>
      length (frames p) < 2 ^ 32 \<and> list_all Frame_in_range (frames p))"

text \<open>
  A foreign frame is skipped when its type is none that \<open>parseFrame\<close> dispatches on
  (\<open>Padding\<close>, \<open>0x00\<close>, is among the skipped ones).
\<close>

definition known_type :: "nat \<Rightarrow> bool" where
  "known_type t = (t \<in> {0x01, 0x02, 0x03, 0x04, 0x05, 0x06,
                          0x10, 0x11, 0x12, 0x13, 0x14, 0x15, 0x16})"

text \<open>The bytes a frame's \<open>writeTo\<close> writes (for a frame whose \<open>writeTo\<close> does not throw).\<close>

fun Frame_contents :: "Frame \<Rightarrow> Buffer" where
  "Frame_contents (ConnectionCloseFrame errorCode errorMessage) =
     (case errorCode of None \<Rightarrow> [] | Some c \<Rightarrow> [of_nat (ErrorCode_value c)])
       @ var_octets (Buffer_from errorMessage)"
| "Frame_contents (ConnectionNewAddressFrame sourceAccount) = var_octets (Buffer_from sourceAccount)"
| "Frame_contents (ConnectionMaxDataFrame maxOffset) = var_uint maxOffset"
| "Frame_contents (ConnectionDataBlockedFrame maxOffset) = var_uint maxOffset"
| "Frame_contents (ConnectionMaxStreamIdFrame maxStreamId) = var_uint maxStreamId"
| "Frame_contents (ConnectionStreamIdBlockedFrame maxStreamId) = var_uint maxStreamId"
| "Frame_contents (StreamMoneyFrame streamId shares) = var_uint streamId @ var_uint shares"
| "Frame_contents (StreamMaxMoneyFrame streamId receiveMax totalReceived) =
     var_uint streamId @ var_uint receiveMax @ var_uint totalReceived"
| "Frame_contents (StreamMoneyBlockedFrame streamId sendMax totalSent) =
     var_uint streamId @ var_uint sendMax @ var_uint totalSent"
| "Frame_contents (StreamCloseFrame streamId errorCode errorMessage) =
     var_uint streamId
       @ (case errorCode of None \<Rightarrow> [] | Some c \<Rightarrow> [of_nat (ErrorCode_value c)])
       @ var_octets (Buffer_from errorMessage)"
| "Frame_contents (StreamDataFrame streamId off d) =
     var_uint streamId @ var_uint off @ var_octets d"
| "Frame_contents (StreamMaxDataFrame streamId maxOffset) = var_uint streamId @ var_uint maxOffset"
| "Frame_contents (StreamDataBlockedFrame streamId maxOffset) =
     var_uint streamId @ var_uint maxOffset"
| "Frame_contents (ForeignFrame t c) = c"

definition Frame_bytes :: "Frame \<Rightarrow> Buffer" where
  "Frame_bytes f = of_nat (Frame_type f) # var_octets (Frame_contents f)"

text \<open>A foreign frame that the writer accepts and \<open>parseFrame\<close> skips.\<close>

fun Frame_skippable :: "Frame \<Rightarrow> bool" where
  "Frame_skippable (ForeignFrame t c) = (\<not> known_type t \<and> t \<le> 255 \<and> length c < 2 ^ 47)"
| "Frame_skippable _ = False"

text \<open>The bytes \<open>Packet.writeTo\<close> writes (for a packet whose \<open>writeTo\<close> does not throw).\<close>

definition Packet_bytes :: "Packet \<Rightarrow> Buffer" where
  "Packet_bytes p =
     [of_nat VERSION, of_nat (ilpPacketType p)] @ var_uint (sequence p)
       @ var_uint (prepareAmount p) @ var_uint (length (frames p))
       @ concat (map Frame_bytes (frames p))"

section \<open>Receipts (\<open>util/receipt.ts\<close>)\<close>

definition RECEIPT_VERSION :: nat where "RECEIPT_VERSION = 1"

text \<open>
  Modelled from the spec: \<open>longFromValue\<close> is imported from \<open>util/long\<close>, which is not
  among the sources. By the spec \<open>totalReceived\<close> is a \<open>u64\<close>: the \<open>LongValue\<close> passed
  for it (a number, a decimal string or a \<open>Long\<close>) is modelled by the unsigned 64-bit
  integer it denotes, and \<open>longFromValue(v, true)\<close> is the unsigned \<open>Long\<close> of that
  integer. The \<open>LongValue\<close> passed for \<open>streamId\<close> goes to \<open>writeUInt8\<close> as it is and
  is modelled by the natural number it denotes.
\<close>

definition longFromValue :: "64 word \<Rightarrow> 64 word" where
  "longFromValue v = v"

record Receipt =
  version :: nat
  nonce :: Buffer
  streamId :: nat
  totalReceived :: "64 word"

text \<open>
  \<open>createReceipt\<close>: the arguments are the fields \<open>nonce\<close>, \<open>streamId\<close>, \<open>totalReceived\<close>
  and \<open>secret\<close> of \<open>opts\<close>; \<open>hm\<close> is HMAC-SHA256. The writer is strict, with a capacity
  of 58 bytes; \<open>getBuffer\<close> returns the bytes written so far.
\<close>

definition createReceipt ::
  "hmac \<Rightarrow> Buffer \<Rightarrow> nat \<Rightarrow> 64 word \<Rightarrow> Buffer \<Rightarrow> error + Buffer" where
  "createReceipt hm opts_nonce opts_streamId opts_totalReceived opts_secret =
     (if length opts_nonce \<noteq> 16 then Inl (Error ''receipt nonce must be 16 bytes'')
      else if length opts_secret \<noteq> 32 then Inl (Error ''receipt secret must be 32 bytes'')
      else
        let receipt = Writer_new_capacity 58 in
        bindE (writeUInt8 RECEIPT_VERSION receipt) (\<lambda>receipt.
        bindE (writeOctetString opts_nonce 16 receipt) (\<lambda>receipt.
        bindE (writeUInt8 opts_streamId receipt) (\<lambda>receipt.
        bindE (writeUInt64 (longFromValue opts_totalReceived) receipt) (\<lambda>receipt.
        bindE (writeOctetString (generateReceiptHMAC hm opts_secret (getBuffer receipt)) 32
                 receipt) (\<lambda>receipt.
          Inr (getBuffer receipt)))))))"

definition decodeReceipt :: "Buffer \<Rightarrow> error + Receipt" where
  "decodeReceipt receipt =
     (if length receipt \<noteq> 58 then Inl (Error ''receipt must be 58 bytes'')
      else
        let reader = Reader_from receipt in
        bindE (readUInt8 reader) (\<lambda>(version, reader).
        bindE (readOctetString 16 reader) (\<lambda>(nonce, reader).
        bindE (readUInt8 reader) (\<lambda>(streamId, reader).
        bindE (readUInt64Long reader) (\<lambda>(totalReceived, reader).
          Inr \<lparr>version = version, nonce = nonce, streamId = streamId,
               totalReceived = totalReceived\<rparr>)))))"

text \<open>
  \<open>verifyReceipt\<close>: \<open>reader.buffer\<close> is the whole receipt, whatever has been read, so
  \<open>message\<close> is its first 26 bytes and \<open>receiptHmac\<close> the rest.
\<close>

definition verifyReceipt :: "hmac \<Rightarrow> Buffer \<Rightarrow> Buffer \<Rightarrow> error + bool" where
  "verifyReceipt hm receipt secret =
     (if length receipt \<noteq> 58 then Inr False
      else
        let reader = Reader_from receipt in
        bindE (readUInt8 reader) (\<lambda>(version, reader).
          if version \<noteq> RECEIPT_VERSION then Inr False
          else
            let message = take 26 receipt;
                receiptHmac = drop 26 receipt
            in Inr (receiptHmac = generateReceiptHMAC hm secret message)))"

text \<open>What the theorems assume of HMAC-SHA256: a digest of 32 bytes.\<close>

definition sha256_sized :: "hmac \<Rightarrow> bool" where
  "sha256_sized hm = (\<forall>key msg. length (hm key msg) = 32)"

text \<open>The first 26 bytes of a receipt.\<close>

definition receipt_message :: "Buffer \<Rightarrow> nat \<Rightarrow> 64 word \<Rightarrow> Buffer" where
  "receipt_message n sid tot = [1] @ n @ [of_nat sid] @ uint_bytes 8 (unat tot)"

section \<open>The server (\<open>index.ts\<close>)\<close>

subsection \<open>\<open>base64url\<close>\<close>







subsection \<open>The encoding the spec names\<close>









subsection \<open>\<open>generateAddressAndSecret\<close>\<close>







record AddressAndSecret =
  destinationAccount :: js_string
  sharedSecret :: Buffer


section \<open>The offset sorter (\<open>OffsetSorter\<close>)\<close>

text \<open>
  \<open>OffsetDataEntry\<close> is a cell of a singly linked list; the \<open>next\<close> pointer is the
  tail of a HOL list, so \<open>head\<close> below is the whole chain starting at the source's
  \<open>head\<close> (the empty list when \<open>head\<close> is undefined).
\<close>

record OffsetDataEntry =
  data :: Buffer
  offset :: int

record OffsetSorter =
  head :: "OffsetDataEntry list"
  readOffset :: int
  endOffset :: int
  maxOffset :: int

definition OffsetSorter_new :: OffsetSorter where
  "OffsetSorter_new = \<lparr>head = [], readOffset = 0, endOffset = -1, maxOffset = 0\<rparr>"

definition setEndOffset :: "int \<Rightarrow> OffsetSorter \<Rightarrow> OffsetSorter" where
  "setEndOffset off s = s\<lparr>endOffset := off\<rparr>"

definition isEnd :: "OffsetSorter \<Rightarrow> bool" where
  "isEnd s = (readOffset s = endOffset s)"

text \<open>
  The \<open>while (true)\<close> loop of \<open>push\<close>: the argument is the chain \<open>prev.next\<close>; the
  entry goes to the end of the chain or in front of the first cell whose offset is
  greater.
\<close>

fun push_loop :: "OffsetDataEntry \<Rightarrow> OffsetDataEntry list \<Rightarrow> OffsetDataEntry list" where
  "push_loop entry [] = [entry]"
| "push_loop entry (n # rest) =
     (if offset n > offset entry then entry # n # rest
      else n # push_loop entry rest)"

definition push :: "Buffer \<Rightarrow> int \<Rightarrow> OffsetSorter \<Rightarrow> OffsetSorter" where
  "push d off s =
     (let entry = \<lparr>data = d, offset = off\<rparr>;
          s1 = s\<lparr>maxOffset := max (off + int (length d)) (maxOffset s)\<rparr>
      in case head s1 of
           [] \<Rightarrow> s1\<lparr>head := [entry]\<rparr>
         | h # rest \<Rightarrow>
             if offset h > off then s1\<lparr>head := entry # h # rest\<rparr>
             else s1\<lparr>head := h # push_loop entry rest\<rparr>)"

text \<open>\<open>read\<close> returns the data (\<open>None\<close> for \<open>undefined\<close>) and the updated sorter.\<close>

definition read :: "OffsetSorter \<Rightarrow> Buffer option \<times> OffsetSorter" where
  "read s =
     (case head s of
        [] \<Rightarrow> (None, s)
      | h # rest \<Rightarrow>
          if readOffset s = offset h
          then (Some (data h),
                s\<lparr>readOffset := offset h + int (length (data h)), head := rest\<rparr>)
          else (None, s))"

definition byteLength :: "OffsetSorter \<Rightarrow> nat" where
  "byteLength s = sum_list (map (\<lambda>e. length (data e)) (head s))"

text \<open>A sequence of calls on one sorter, and \<open>n\<close> successive calls of \<open>read\<close>.\<close>

datatype call = Push Buffer int | Read

fun exec :: "call list \<Rightarrow> OffsetSorter \<Rightarrow> OffsetSorter" where
  "exec [] s = s"
| "exec (Push d off # cs) s = exec cs (push d off s)"
| "exec (Read # cs) s = exec cs (snd (read s))"

fun read_n :: "nat \<Rightarrow> OffsetSorter \<Rightarrow> Buffer option list \<times> OffsetSorter" where
  "read_n 0 s = ([], s)"
| "read_n (Suc n) s =
     (let (r, s1) = read s; (rs, s2) = read_n n s1 in (r # rs, s2))"

definition push_all :: "(Buffer \<times> int) list \<Rightarrow> OffsetSorter \<Rightarrow> OffsetSorter" where
  "push_all cs s = foldl (\<lambda>s c. push (fst c) (snd c) s) s cs"

text \<open>The chunks obtained by cutting a byte sequence into consecutive pieces, from offset \<open>off\<close>.\<close>

fun chunks_at :: "int \<Rightarrow> Buffer list \<Rightarrow> (Buffer \<times> int) list" where
  "chunks_at off [] = []"
| "chunks_at off (d # ds) = (d, off) # chunks_at (off + int (length d)) ds"

text \<open>The bytes handed out by a series of \<open>read\<close> calls.\<close>

definition bytes_read :: "Buffer option list \<Rightarrow> Buffer" where
  "bytes_read rs = concat (map (\<lambda>r. case r of None \<Rightarrow> [] | Some d \<Rightarrow> d) rs)"

text \<open>The queue is kept in ascending order of offsets.\<close>

definition ordered :: "OffsetDataEntry list \<Rightarrow> bool" where
  "ordered xs = sorted (map offset xs)"

definition entry_of :: "Buffer \<times> int \<Rightarrow> OffsetDataEntry" where
  "entry_of c = \<lparr>data = fst c, offset = snd c\<rparr>"

text \<open>
  The results of \<open>n\<close> successive \<open>read\<close> calls depend only on \<open>readOffset\<close> and the
  queue; \<open>reads\<close> computes them on these two.
\<close>

fun reads :: "nat \<Rightarrow> int \<Rightarrow> OffsetDataEntry list \<Rightarrow> Buffer option list" where
  "reads 0 r xs = []"
| "reads (Suc n) r [] = None # reads n r []"
| "reads (Suc n) r (h # t) =
     (if r = offset h then Some (data h) # reads n (offset h + int (length (data h))) t
      else None # reads n r (h # t))"

section \<open>The OER coding: what is written is read back\<close>

lemma bindE_simps [simp]: "bindE (Inl e) f = Inl e" "bindE (Inr x) f = f x"
  by (simp_all add: bindE_def)

lemma length_uint_bytes [simp]: "length (uint_bytes n v) = n"
  by (induction n arbitrary: v) simp_all

lemma bytes_uint_snoc: "bytes_uint (bs @ [b]) = bytes_uint bs * 256 + unat b"
  by (simp add: bytes_uint_def)

lemma unat_byte_mod: "unat (of_nat (v mod 256) :: byte) = v mod 256"
  by (simp add: unat_of_nat)

lemma bytes_uint_uint_bytes: "v < 256 ^ n \<Longrightarrow> bytes_uint (uint_bytes n v) = v"
proof (induction n arbitrary: v)
  case 0
  then show ?case by (simp add: bytes_uint_def)
next
  case (Suc n)
  then have "v div 256 < 256 ^ n"
    by (simp add: less_mult_imp_div_less mult.commute)
  with Suc.IH show ?case by (simp add: bytes_uint_snoc unat_byte_mod)
qed

lemma uint_size_pos: "0 < uint_size v"
  by (subst uint_size.simps) simp

lemma uint_size_upper: "v < 256 ^ uint_size v"
proof (induction v rule: uint_size.induct)
  case (1 v)
  show ?case
  proof (cases "v < 256")
    case True
    then show ?thesis by (subst uint_size.simps) simp
  next
    case False
    with 1 have "v div 256 < 256 ^ uint_size (v div 256)" by simp
    then have "v < 256 * 256 ^ uint_size (v div 256)"
      by (metis div_less_iff_less_mult mult.commute zero_less_numeral)
    with False show ?thesis by (subst uint_size.simps) simp
  qed
qed

lemma uint_size_lower: "256 \<le> v \<Longrightarrow> 256 ^ (uint_size v - 1) \<le> v"
proof (induction v rule: uint_size.induct)
  case (1 v)
  then have nl: "\<not> v < 256" by simp
  show ?case
  proof (cases "v div 256 < 256")
    case True
    then have "uint_size (v div 256) = 1" by (subst uint_size.simps) simp
    with nl have "uint_size v = 2" by (subst uint_size.simps) simp
    with 1 show ?thesis by simp
  next
    case False
    with 1 nl have "256 ^ (uint_size (v div 256) - 1) \<le> v div 256" by simp
    moreover have "uint_size v - 1 = Suc (uint_size (v div 256) - 1)"
      using nl uint_size_pos [of "v div 256"] by (subst uint_size.simps) simp
    ultimately have "256 ^ (uint_size v - 1) \<le> 256 * (v div 256)" by simp
    also have "\<dots> \<le> v" by simp
    finally show ?thesis .
  qed
qed

lemma uint_size_le: "0 < k \<Longrightarrow> v < 256 ^ k \<Longrightarrow> uint_size v \<le> k"
proof (induction v arbitrary: k rule: uint_size.induct)
  case (1 v)
  show ?case
  proof (cases "v < 256")
    case True
    then have "uint_size v = 1" by (subst uint_size.simps) simp
    with 1 show ?thesis by simp
  next
    case False
    obtain j where k: "k = Suc j" using 1(2) by (cases k) auto
    with False 1(3) have "0 < j" by (cases j) auto
    moreover have "v div 256 < 256 ^ j"
      using 1(3) k by (simp add: less_mult_imp_div_less mult.commute)
    ultimately have "uint_size (v div 256) \<le> j" using 1(1) False by simp
    with False k show ?thesis by (subst uint_size.simps) simp
  qed
qed

lemma uint_size_small: "v < 256 \<Longrightarrow> uint_size v = 1"
  by (subst uint_size.simps) simp

lemma Writer_append_simps [simp]:
  "capacity (Writer_append w bs) = capacity w"
  "buffer (Writer_append w bs) = buffer w @ bs"
  "Writer_append (Writer_append w as) bs = Writer_append w (as @ bs)"
  "getBuffer (Writer_append w bs) = buffer w @ bs"
  by (simp_all add: Writer_append_def getBuffer_def)

lemma Writer_new_simps [simp]: "capacity Writer_new = None" "buffer Writer_new = []"
  by (simp_all add: Writer_new_def)

lemma Writer_write_ok:
  "capacity w = None \<Longrightarrow> Writer_write bs w = Inr (Writer_append w bs)"
  by (simp add: Writer_write_def Writer_append_def)

lemma writeUInt_ok:
  "capacity w = None \<Longrightarrow> 0 < n \<Longrightarrow> v < 256 ^ n \<Longrightarrow>
     writeUInt v n w = Inr (Writer_append w (uint_bytes n v))"
  by (simp add: writeUInt_def Writer_write_ok)

lemma uint_bytes_1: "uint_bytes (Suc 0) v = [of_nat (v mod 256)]"
  by simp

lemma writeUInt8_ok:
  "capacity w = None \<Longrightarrow> v < 256 \<Longrightarrow> writeUInt8 v w = Inr (Writer_append w [of_nat v])"
  by (simp add: writeUInt8_def writeUInt_ok)

lemma uint_size_48: "n < 2 ^ 48 \<Longrightarrow> uint_size n \<le> 6"
  by (rule uint_size_le) simp_all

lemma or_128_small: "k \<le> 6 \<Longrightarrow> (128::nat) OR k = 128 + k"
proof -
  assume "k \<le> 6"
  then have "k \<in> {0, 1, 2, 3, 4, 5, 6}" by auto
  then show ?thesis by auto
qed

lemma writeLengthPrefix_ok:
  assumes "capacity w = None" "n < 2 ^ 48"
  shows "writeLengthPrefix n w = Inr (Writer_append w (len_prefix n))"
proof (cases "n \<le> 127")
  case True
  with assms show ?thesis by (simp add: writeLengthPrefix_def len_prefix_def writeUInt8_ok)
next
  case False
  have k: "uint_size n \<le> 6" using assms(2) by (rule uint_size_48)
  then have "128 OR uint_size n < 256" by (simp add: or_128_small)
  with False assms(1) show ?thesis
    by (simp add: writeLengthPrefix_def len_prefix_def writeUInt8_ok writeUInt_ok
        uint_size_pos uint_size_upper Let_def)
qed

lemma writeVarOctetString_ok:
  "capacity w = None \<Longrightarrow> length b < 2 ^ 48 \<Longrightarrow>
     writeVarOctetString b w = Inr (Writer_append w (var_octets b))"
  by (simp add: writeVarOctetString_def writeLengthPrefix_ok Writer_write_ok var_octets_def)

lemma uint_size_64: "v < 2 ^ 64 \<Longrightarrow> uint_size v \<le> 8"
  by (rule uint_size_le) simp_all

lemma writeVarUInt_ok:
  assumes "capacity w = None" "v < 2 ^ 64"
  shows "writeVarUInt v w = Inr (Writer_append w (var_uint v))"
proof -
  have "uint_size v < 2 ^ 48" using uint_size_64 [OF assms(2)] by simp
  with assms(1) show ?thesis
    by (simp add: writeVarUInt_def Let_def writeLengthPrefix_ok writeUInt_ok uint_size_pos
        uint_size_upper var_uint_def)
qed

lemma readOctetString_append:
  "readOctetString (length b) (b @ r) = Inr (b, r)"
  by (simp add: readOctetString_def)

lemma readUIntBig_bytes:
  "0 < n \<Longrightarrow> v < 256 ^ n \<Longrightarrow> readUIntBig n (uint_bytes n v @ r) = Inr (v, r)"
  using readOctetString_append [of "uint_bytes n v" r]
  by (simp add: readUIntBig_def bytes_uint_uint_bytes)

lemma readUInt_bytes:
  "0 < n \<Longrightarrow> n \<le> 6 \<Longrightarrow> v < 256 ^ n \<Longrightarrow> readUInt n (uint_bytes n v @ r) = Inr (v, r)"
  by (simp add: readUInt_def readUIntBig_bytes)

lemma bytes_uint_single: "bytes_uint [b] = unat b"
  by (simp add: bytes_uint_def)

lemma readUInt8_Cons: "readUInt8 (b # r) = Inr (unat b, r)"
  by (simp add: readUInt8_def readUInt_def readUIntBig_def readOctetString_def bytes_uint_single)

lemma readUInt8_Nil: "readUInt8 [] = Inl ReadPastEnd"
  by (simp add: readUInt8_def readUInt_def readUIntBig_def readOctetString_def)

lemma peekUInt8_Cons: "peekUInt8 (b # r) = Inr (unat b, b # r)"
  by (simp add: peekUInt8_def readUInt_def readUIntBig_def readOctetString_def bytes_uint_single)

lemma unat_byte: "v < 256 \<Longrightarrow> unat (of_nat v :: byte) = v"
  by (simp add: unat_of_nat)

lemma and_128_small: "n \<le> 127 \<Longrightarrow> n AND 128 = (0::nat)"
proof -
  assume "n \<le> 127"
  then have "n div 2 ^ 7 = 0" by simp
  then have "\<not> bit n 7" by (simp add: bit_iff_odd)
  then have "n AND 2 ^ 7 = 0" using and_exp_eq_0_iff_not_bit [of n 7] by blast
  then show ?thesis by simp
qed

lemma and_prefix_byte:
  "0 < k \<Longrightarrow> k \<le> 6 \<Longrightarrow> (128 + k) AND 128 \<noteq> (0::nat) \<and> (128 + k) AND 127 = k"
proof -
  assume "0 < k" "k \<le> 6"
  then have "k \<in> {1, 2, 3, 4, 5, 6}" by auto
  then show ?thesis by auto
qed

lemma js_shift_left_1_le: "js_shift_left_1 m \<le> 2 ^ m"
proof -
  have "(2::int) ^ (m mod 32) \<le> 2 ^ m"
    by (rule power_increasing) simp_all
  moreover have "- (2 ^ 31) \<le> (2::int) ^ m"
    by (rule order_trans [of _ 0]) simp_all
  ultimately show ?thesis by (simp add: js_shift_left_1_def)
qed

lemma readLengthPrefix_ok:
  assumes "n < 2 ^ 48"
  shows "readLengthPrefix (len_prefix n @ r) = Inr (n, r)"
proof (cases "n \<le> 127")
  case True
  then show ?thesis
    by (simp add: readLengthPrefix_def len_prefix_def readUInt8_Cons unat_byte and_128_small)
next
  case False
  let ?k = "uint_size n"
  have k: "0 < ?k" "?k \<le> 6" using assms by (simp_all add: uint_size_pos uint_size_48)
  have "128 OR ?k < 256" using k by (simp add: or_128_small)
  then have "unat (of_nat (128 OR ?k) :: byte) = 128 OR ?k" by (rule unat_byte)
  then have b: "unat (of_nat (128 OR ?k) :: byte) = 128 + ?k"
    using k by (simp only: or_128_small)
  have rd: "readUInt ?k (uint_bytes ?k n @ r) = Inr (n, r)"
    using k by (simp add: readUInt_bytes uint_size_upper)
  have "2 ^ ((?k - 1) * 8) \<le> n"
  proof (cases "256 \<le> n")
    case True
    have "(2::nat) ^ ((?k - 1) * 8) = 256 ^ (?k - 1)"
      by (simp add: mult.commute [of _ 8] power_mult)
    with uint_size_lower [OF True] show ?thesis by simp
  next
    case False
    then have "?k = 1" by (simp add: uint_size_small)
    with \<open>\<not> n \<le> 127\<close> show ?thesis by simp
  qed
  then have "int n \<ge> 2 ^ ((?k - 1) * 8)"
    by (metis of_nat_le_iff of_nat_numeral of_nat_power)
  with js_shift_left_1_le [of "(?k - 1) * 8"]
  have "js_shift_left_1 ((?k - 1) * 8) \<le> int n" by linarith
  then have canon: "\<not> int n < max 128 (js_shift_left_1 ((?k - 1) * 8))"
    using False by simp
  show ?thesis
    using False and_prefix_byte [OF k] canon k
    by (simp add: readLengthPrefix_def len_prefix_def readUInt8_Cons b rd Let_def)
qed

lemma readVarOctetString_ok:
  "length b < 2 ^ 48 \<Longrightarrow> readVarOctetString (var_octets b @ r) = Inr (b, r)"
  by (simp add: readVarOctetString_def var_octets_def readLengthPrefix_ok readOctetString_append)

lemma readVarUInt_ok:
  assumes "v < 2 ^ 64"
  shows "readVarUInt (var_uint v @ r) = Inr (v, r)"
proof -
  let ?k = "uint_size v"
  have k: "?k < 2 ^ 48" "0 < ?k" using uint_size_64 [OF assms] uint_size_pos [of v] by simp_all
  have "readVarOctetString (var_uint v @ r) = Inr (uint_bytes ?k v, r)"
    using readOctetString_append [of "uint_bytes ?k v" r] k
    by (simp add: readVarOctetString_def var_uint_def readLengthPrefix_ok)
  moreover have "uint_bytes ?k v \<noteq> []"
    using k(2) by (metis length_uint_bytes length_0_conv less_numeral_extra(3))
  ultimately show ?thesis
    by (simp add: readVarUInt_def bytes_uint_uint_bytes uint_size_upper)
qed

lemma skipVarOctetString_ok:
  "length b < 2 ^ 48 \<Longrightarrow> skipVarOctetString (var_octets b @ r) = Inr r"
  by (simp add: skipVarOctetString_def readVarOctetString_ok)

section \<open>Strings: UTF-8 written by \<open>Buffer.from\<close> is read back by \<open>toString\<close>\<close>

lemma digits64_3: "((c::nat) div 4096 * 64 + c div 64 mod 64) * 64 + c mod 64 = c"
proof -
  have "c div 4096 = c div 64 div 64" by (simp add: div_mult2_eq)
  then have "c div 4096 * 64 + c div 64 mod 64 = c div 64" by simp
  then show ?thesis by simp
qed

lemma digits64_4:
  "(((c::nat) div 262144 * 64 + c div 4096 mod 64) * 64 + c div 64 mod 64) * 64 + c mod 64 = c"
proof -
  have a: "c div 4096 = c div 64 div 64" by (simp add: div_mult2_eq)
  have b: "c div 262144 = c div 64 div 64 div 64" by (simp add: div_mult2_eq)
  have "c div 262144 * 64 + c div 4096 mod 64 = c div 4096" unfolding a b by simp
  then have "(c div 262144 * 64 + c div 4096 mod 64) * 64 + c div 64 mod 64 = c div 64"
    unfolding a by simp
  then show ?thesis by simp
qed

lemma mod_lead: "q < m \<Longrightarrow> (k * m + q) mod m = (q::nat)"
  by simp

lemma lead_mod_32: "q < 32 \<Longrightarrow> (192 + q) mod 32 = (q::nat)"
  using mod_lead [of q 32 6] by simp

lemma lead_mod_16: "q < 16 \<Longrightarrow> (224 + q) mod 16 = (q::nat)"
  using mod_lead [of q 16 14] by simp

lemma lead_mod_8: "q < 8 \<Longrightarrow> (240 + q) mod 8 = (q::nat)"
  using mod_lead [of q 8 30] by simp

lemma trail_mod_64: "(128 + r mod 64) mod 64 = (r::nat) mod 64"
  using mod_lead [of "r mod 64" 64 2] by simp

lemma div_upper: "(c::nat) < k * m \<Longrightarrow> c div m < k"
  by (simp add: less_mult_imp_div_less)

lemma div_lower: "0 < m \<Longrightarrow> k * m \<le> (c::nat) \<Longrightarrow> k \<le> c div m"
  by (simp add: less_eq_div_iff_mult_less_eq)

lemma three_bytes_lower:
  assumes "2048 \<le> (c::nat)" "c div 4096 = 0"
  shows "32 \<le> c div 64 mod 64"
proof -
  have "c div 64 div 64 = 0" using assms(2) by (simp add: div_mult2_eq)
  then have "c div 64 mod 64 = c div 64" by (metis add.left_neutral div_mult_mod_eq mult_zero_left)
  moreover have "32 \<le> c div 64" using assms(1) div_lower [of 64 32 c] by simp
  ultimately show ?thesis by simp
qed

lemma three_bytes_upper:
  assumes "(c::nat) < 55296" "c div 4096 = 13"
  shows "c div 64 mod 64 < 32"
proof -
  have "c div 64 div 64 = 13" using assms(2) by (simp add: div_mult2_eq)
  then have "c div 64 = 13 * 64 + c div 64 mod 64"
    by (metis div_mult_mod_eq)
  moreover have "c div 64 < 864" using assms(1) div_upper [of c 864 64] by simp
  ultimately show ?thesis by linarith
qed

lemma four_bytes_lower:
  assumes "65536 \<le> (c::nat)" "c div 262144 = 0"
  shows "16 \<le> c div 4096 mod 64"
proof -
  have "c div 4096 div 64 = 0" using assms(2) by (simp add: div_mult2_eq)
  then have "c div 4096 mod 64 = c div 4096" by (metis add.left_neutral div_mult_mod_eq mult_zero_left)
  moreover have "16 \<le> c div 4096" using assms(1) div_lower [of 4096 16 c] by simp
  ultimately show ?thesis by simp
qed

lemma four_bytes_upper:
  assumes "(c::nat) < 1114112" "c div 262144 = 4"
  shows "c div 4096 mod 64 < 16"
proof -
  have "c div 4096 div 64 = 4" using assms(2) by (simp add: div_mult2_eq)
  then have "c div 4096 = 4 * 64 + c div 4096 mod 64"
    by (metis div_mult_mod_eq)
  moreover have "c div 4096 < 272" using assms(1) div_upper [of c 272 4096] by simp
  ultimately show ?thesis by linarith
qed

lemma pair_split:
  assumes "(y::nat) < 1024"
  shows "(x * 1024 + y) div 1024 = x" "(x * 1024 + y) mod 1024 = y"
  using assms by simp_all

lemma toString_1:
  "unat b0 < 0x80 \<Longrightarrow> toString (b0 # bs) = of_nat (unat b0) # toString bs"
  by (simp add: toString.simps(2) [of b0 bs] del: of_nat_unat)

lemma toString_2:
  "0xC2 \<le> unat b0 \<Longrightarrow> unat b0 \<le> 0xDF \<Longrightarrow> continuation 0x80 0xBF b1 \<Longrightarrow>
     toString (b0 # b1 # bs) =
       code_point_units (unat b0 mod 32 * 64 + unat b1 mod 64) @ toString bs"
  by (simp add: toString.simps(2) [of b0 "b1 # bs"])

lemma toString_3:
  "0xE0 \<le> unat b0 \<Longrightarrow> unat b0 \<le> 0xEF \<Longrightarrow>
   continuation (if unat b0 = 0xE0 then 0xA0 else 0x80) (if unat b0 = 0xED then 0x9F else 0xBF) b1 \<Longrightarrow>
   continuation 0x80 0xBF b2 \<Longrightarrow>
     toString (b0 # b1 # b2 # bs) =
       code_point_units ((unat b0 mod 16 * 64 + unat b1 mod 64) * 64 + unat b2 mod 64)
         @ toString bs"
  by (simp add: toString.simps(2) [of b0 "b1 # b2 # bs"])

lemma toString_4:
  "0xF0 \<le> unat b0 \<Longrightarrow> unat b0 \<le> 0xF4 \<Longrightarrow>
   continuation (if unat b0 = 0xF0 then 0x90 else 0x80) (if unat b0 = 0xF4 then 0x8F else 0xBF) b1 \<Longrightarrow>
   continuation 0x80 0xBF b2 \<Longrightarrow> continuation 0x80 0xBF b3 \<Longrightarrow>
     toString (b0 # b1 # b2 # b3 # bs) =
       code_point_units
         (((unat b0 mod 8 * 64 + unat b1 mod 64) * 64 + unat b2 mod 64) * 64 + unat b3 mod 64)
         @ toString bs"
  by (simp add: toString.simps(2) [of b0 "b1 # b2 # b3 # bs"])

lemma unat_byte_of_nat: "n < 256 \<Longrightarrow> unat (of_nat n :: byte) = n"
  by (simp add: unat_of_nat)

lemma unat_code_unit: "unat (u :: code_unit) < 65536"
  using unsigned_less [of u, where 'a = nat] by simp

lemma utf8_unit_1: "unat u < 0x80 \<Longrightarrow> utf8_unit u = [of_nat (unat u)]"
  unfolding utf8_unit_def Let_def by (simp del: of_nat_unat)

lemma utf8_unit_2:
  "0x80 \<le> unat u \<Longrightarrow> unat u < 0x800 \<Longrightarrow>
     utf8_unit u = [of_nat (0xC0 + unat u div 64), of_nat (0x80 + unat u mod 64)]"
  unfolding utf8_unit_def Let_def by (simp del: of_nat_unat)

lemma utf8_unit_3:
  "0x800 \<le> unat u \<Longrightarrow> \<not> high_surrogate u \<Longrightarrow> \<not> low_surrogate u \<Longrightarrow>
     utf8_unit u = [of_nat (0xE0 + unat u div 4096), of_nat (0x80 + unat u div 64 mod 64),
            of_nat (0x80 + unat u mod 64)]"
  unfolding utf8_unit_def Let_def by (simp del: of_nat_unat)

lemma code_point_units_unit: "code_point_units (unat (u :: code_unit)) = [u]"
  using unat_code_unit [of u] by (simp add: code_point_units_def)

lemma toString_unit_1:
  assumes 1: "unat (u :: code_unit) < 0x80"
  shows "toString (utf8_unit u @ bs) = u # toString bs"
proof -
  let ?c = "unat u"
  have cu: "of_nat ?c = u" by simp
  have u0: "unat (of_nat ?c :: byte) = ?c" using 1 by (intro unat_byte_of_nat) simp
  have "unat (of_nat ?c :: byte) < 0x80" unfolding u0 by (rule 1)
  from toString_1 [OF this, of bs]
  have "toString (of_nat ?c # bs) = u # toString bs"
    unfolding u0 cu .
  then show ?thesis unfolding utf8_unit_1 [OF 1] append.simps .
qed

lemma toString_unit_2:
  assumes 2: "0x80 \<le> unat (u :: code_unit)" "unat u < 0x800"
  shows "toString (utf8_unit u @ bs) = u # toString bs"
proof -
  let ?c = "unat u"
  let ?b0 = "of_nat (0xC0 + ?c div 64) :: byte" and ?b1 = "of_nat (0x80 + ?c mod 64) :: byte"
  have d: "?c div 64 < 32" using 2 div_upper [of ?c 32 64] by simp
  have d2: "2 \<le> ?c div 64" using 2 div_lower [of 64 2 ?c] by simp
  have u0: "unat ?b0 = 0xC0 + ?c div 64" using d by (intro unat_byte_of_nat) simp
  have u1: "unat ?b1 = 0x80 + ?c mod 64" by (intro unat_byte_of_nat) simp
  have r0: "0xC2 \<le> unat ?b0" "unat ?b0 \<le> 0xDF" using d d2 unfolding u0 by simp_all
  have r1: "continuation 0x80 0xBF ?b1" unfolding continuation_def u1 by simp
  have "unat ?b0 mod 32 * 64 + unat ?b1 mod 64 = ?c div 64 * 64 + ?c mod 64"
    unfolding u0 u1 lead_mod_32 [OF d] trail_mod_64 ..
  then have v: "unat ?b0 mod 32 * 64 + unat ?b1 mod 64 = ?c" by simp
  have "toString (?b0 # ?b1 # bs) = u # toString bs"
    using toString_2 [OF r0 r1, of bs] unfolding v code_point_units_unit by simp
  then show ?thesis unfolding utf8_unit_2 [OF 2] append.simps .
qed

lemma div_eq_upper: "0 < m \<Longrightarrow> (c::nat) div m = k \<Longrightarrow> c < (k + 1) * m"
  using div_upper dividend_less_div_times [of m c] by (simp add: algebra_simps)

lemma toString_unit_3:
  assumes 3: "0x800 \<le> unat (u :: code_unit)"
    and ns: "\<not> high_surrogate u" "\<not> low_surrogate u"
  shows "toString (utf8_unit u @ bs) = u # toString bs"
proof -
  let ?c = "unat u"
  have c: "?c < 65536" by (rule unat_code_unit)
  let ?b0 = "of_nat (0xE0 + ?c div 4096) :: byte"
  let ?b1 = "of_nat (0x80 + ?c div 64 mod 64) :: byte"
  let ?b2 = "of_nat (0x80 + ?c mod 64) :: byte"
  have d: "?c div 4096 < 16" using c div_upper [of ?c 16 4096] by simp
  have u0: "unat ?b0 = 0xE0 + ?c div 4096" using d by (intro unat_byte_of_nat) simp
  have u1: "unat ?b1 = 0x80 + ?c div 64 mod 64" by (intro unat_byte_of_nat) simp
  have u2: "unat ?b2 = 0x80 + ?c mod 64" by (intro unat_byte_of_nat) simp
  have ns': "?c < 0xD800 \<or> 0xDFFF < ?c"
    using ns unfolding high_surrogate_def low_surrogate_def by linarith
  have r0: "0xE0 \<le> unat ?b0" "unat ?b0 \<le> 0xEF" using d unfolding u0 by simp_all
  have lo: "0xA0 \<le> unat ?b1" if "unat ?b0 = 0xE0"
  proof -
    from that have "?c div 4096 = 0" unfolding u0 by simp
    from three_bytes_lower [OF _ this] 3 show ?thesis unfolding u1 by simp
  qed
  have hi: "unat ?b1 \<le> 0x9F" if "unat ?b0 = 0xED"
  proof -
    from that have q: "?c div 4096 = 13" unfolding u0 by simp
    from div_eq_upper [OF _ q] have "?c < 57344" by simp
    with ns' have "?c < 55296" by simp
    from three_bytes_upper [OF this q] show ?thesis unfolding u1 by simp
  qed
  have b1r: "0x80 \<le> unat ?b1" "unat ?b1 \<le> 0xBF" unfolding u1 by simp_all
  have r1: "continuation (if unat ?b0 = 0xE0 then 0xA0 else 0x80)
              (if unat ?b0 = 0xED then 0x9F else 0xBF) ?b1"
    unfolding continuation_def using lo hi b1r by simp
  have r2: "continuation 0x80 0xBF ?b2" unfolding continuation_def u2 by simp
  have "(unat ?b0 mod 16 * 64 + unat ?b1 mod 64) * 64 + unat ?b2 mod 64
          = (?c div 4096 * 64 + ?c div 64 mod 64) * 64 + ?c mod 64"
    unfolding u0 u1 u2 lead_mod_16 [OF d] trail_mod_64 ..
  then have v: "(unat ?b0 mod 16 * 64 + unat ?b1 mod 64) * 64 + unat ?b2 mod 64 = ?c"
    unfolding digits64_3 .
  have "toString (?b0 # ?b1 # ?b2 # bs) = u # toString bs"
    using toString_3 [OF r0 r1 r2, of bs] unfolding v code_point_units_unit by simp
  then show ?thesis unfolding utf8_unit_3 [OF 3 ns] append.simps .
qed

lemma toString_utf8_unit:
  assumes "\<not> high_surrogate u" "\<not> low_surrogate u"
  shows "toString (utf8_unit u @ bs) = u # toString bs"
proof -
  consider "unat u < 0x80" | "0x80 \<le> unat u" "unat u < 0x800" | "0x800 \<le> unat u"
    by linarith
  then show ?thesis
    using toString_unit_1 toString_unit_2 toString_unit_3 [OF _ assms] by cases blast+
qed

lemma code_point_units_pair:
  assumes "high_surrogate u" "low_surrogate v"
  shows "code_point_units (0x10000 + (unat u - 0xD800) * 1024 + (unat v - 0xDC00)) = [u, v]"
proof -
  let ?x = "unat u - 0xD800" and ?y = "unat v - 0xDC00"
  have y: "?y < 1024" using assms(2) unfolding low_surrogate_def by linarith
  have xu: "0xD800 + ?x = unat u" using assms(1) unfolding high_surrogate_def by linarith
  have yv: "0xDC00 + ?y = unat v" using assms(2) unfolding low_surrogate_def by linarith
  have cu: "of_nat (unat u) = u" "of_nat (unat v) = v" by simp_all
  have "\<not> 0x10000 + ?x * 1024 + ?y < 0x10000" by simp
  then have "code_point_units (0x10000 + ?x * 1024 + ?y)
      = [of_nat (0xD800 + (?x * 1024 + ?y) div 1024), of_nat (0xDC00 + (?x * 1024 + ?y) mod 1024)]"
    unfolding code_point_units_def by (simp del: of_nat_unat of_nat_add of_nat_numeral)
  then show ?thesis unfolding pair_split [OF y] xu yv cu .
qed

lemma toString_utf8_pair:
  assumes hs: "high_surrogate u" and ls: "low_surrogate v"
  shows "toString (utf8_pair u v @ bs) = u # v # toString bs"
proof -
  define cp where "cp = 0x10000 + (unat u - 0xD800) * 1024 + (unat v - 0xDC00)"
  have x: "unat u - 0xD800 < 1024" using hs unfolding high_surrogate_def by linarith
  have y: "unat v - 0xDC00 < 1024" using ls unfolding low_surrogate_def by linarith
  have c1: "65536 \<le> cp" unfolding cp_def by simp
  have c2: "cp < 1114112" unfolding cp_def using x y by linarith
  let ?b0 = "of_nat (0xF0 + cp div 262144) :: byte"
  let ?b1 = "of_nat (0x80 + cp div 4096 mod 64) :: byte"
  let ?b2 = "of_nat (0x80 + cp div 64 mod 64) :: byte"
  let ?b3 = "of_nat (0x80 + cp mod 64) :: byte"
  have d: "cp div 262144 < 5" using c2 div_upper [of cp 5 262144] by simp
  then have d8: "cp div 262144 < 8" by simp
  have u0: "unat ?b0 = 0xF0 + cp div 262144" using d by (intro unat_byte_of_nat) simp
  have u1: "unat ?b1 = 0x80 + cp div 4096 mod 64" by (intro unat_byte_of_nat) simp
  have u2: "unat ?b2 = 0x80 + cp div 64 mod 64" by (intro unat_byte_of_nat) simp
  have u3: "unat ?b3 = 0x80 + cp mod 64" by (intro unat_byte_of_nat) simp
  have r0: "0xF0 \<le> unat ?b0" "unat ?b0 \<le> 0xF4" using d unfolding u0 by simp_all
  have lo: "0x90 \<le> unat ?b1" if "unat ?b0 = 0xF0"
  proof -
    from that have "cp div 262144 = 0" unfolding u0 by simp
    from four_bytes_lower [OF c1 this] show ?thesis unfolding u1 by simp
  qed
  have hi: "unat ?b1 \<le> 0x8F" if "unat ?b0 = 0xF4"
  proof -
    from that have q: "cp div 262144 = 4" unfolding u0 by simp
    from four_bytes_upper [OF c2 q] show ?thesis unfolding u1 by simp
  qed
  have b1r: "0x80 \<le> unat ?b1" "unat ?b1 \<le> 0xBF" unfolding u1 by simp_all
  have r1: "continuation (if unat ?b0 = 0xF0 then 0x90 else 0x80)
              (if unat ?b0 = 0xF4 then 0x8F else 0xBF) ?b1"
    unfolding continuation_def using lo hi b1r by simp
  have r2: "continuation 0x80 0xBF ?b2" unfolding continuation_def u2 by simp
  have r3: "continuation 0x80 0xBF ?b3" unfolding continuation_def u3 by simp
  have "((unat ?b0 mod 8 * 64 + unat ?b1 mod 64) * 64 + unat ?b2 mod 64) * 64 + unat ?b3 mod 64
          = ((cp div 262144 * 64 + cp div 4096 mod 64) * 64 + cp div 64 mod 64) * 64 + cp mod 64"
    unfolding u0 u1 u2 u3 lead_mod_8 [OF d8] trail_mod_64 ..
  then have v: "((unat ?b0 mod 8 * 64 + unat ?b1 mod 64) * 64 + unat ?b2 mod 64) * 64
                  + unat ?b3 mod 64 = cp"
    unfolding digits64_4 .
  have cpu: "code_point_units cp = [u, v]"
    unfolding cp_def by (rule code_point_units_pair [OF hs ls])
  have "toString (?b0 # ?b1 # ?b2 # ?b3 # bs) = u # v # toString bs"
    using toString_4 [OF r0 r1 r2 r3, of bs] unfolding v cpu by simp
  moreover have "utf8_pair u v = [?b0, ?b1, ?b2, ?b3]"
    unfolding utf8_pair_def Let_def cp_def ..
  ultimately show ?thesis by simp
qed

lemma toString_Buffer_from_append:
  "well_formed s \<Longrightarrow> toString (Buffer_from s @ bs) = s @ toString bs"
proof (induction s rule: Buffer_from.induct)
  case 1
  show ?case by (simp add: Buffer_from.simps)
next
  case (2 u)
  then show ?case by (simp add: Buffer_from.simps well_formed.simps toString_utf8_unit)
next
  case (3 u v rest)
  show ?case
  proof (cases "high_surrogate u \<and> low_surrogate v")
    case True
    with 3 show ?thesis by (simp add: Buffer_from.simps well_formed.simps toString_utf8_pair)
  next
    case False
    with 3 show ?thesis by (simp add: Buffer_from.simps well_formed.simps toString_utf8_unit)
  qed
qed

lemma toString_Buffer_from [simp]: "well_formed s \<Longrightarrow> toString (Buffer_from s) = s"
  using toString_Buffer_from_append [of s "[]"] by (simp add: toString.simps)

section \<open>Frames: what is written is parsed back\<close>

lemma uint64_bound: "uint64 v \<Longrightarrow> v < 2 ^ 64"
  by (simp add: uint64_def MAX_UINT64_def)

lemma length_len_prefix: "n < 2 ^ 48 \<Longrightarrow> length (len_prefix n) \<le> 7"
  using uint_size_48 [of n] by (simp add: len_prefix_def)

lemma length_var_uint: "uint64 v \<Longrightarrow> length (var_uint v) \<le> 9"
proof -
  assume "uint64 v"
  then have "uint_size v \<le> 8" by (intro uint_size_64 uint64_bound)
  then show ?thesis by (simp add: var_uint_def len_prefix_def)
qed

lemma length_var_octets: "length b < 2 ^ 47 \<Longrightarrow> length (var_octets b) \<le> 7 + length b"
  using length_len_prefix [of "length b"] by (simp add: var_octets_def)

lemma ErrorCode_value_byte: "ErrorCode_value c < 256"
  by (cases c) simp_all

lemma ErrorCode_name_value [simp]: "ErrorCode_name (ErrorCode_value c) = Some c"
  by (cases c) (simp_all add: ErrorCode_name_def)

lemma writeVarUInt_uint64:
  "capacity w = None \<Longrightarrow> uint64 v \<Longrightarrow> writeVarUInt v w = Inr (Writer_append w (var_uint v))"
  by (rule writeVarUInt_ok) (simp_all add: uint64_def MAX_UINT64_def)

lemma writeVarOctetString_47:
  "capacity w = None \<Longrightarrow> length b < 2 ^ 47 \<Longrightarrow>
     writeVarOctetString b w = Inr (Writer_append w (var_octets b))"
  by (simp add: writeVarOctetString_ok)

lemma Frame_writeContents_ok:
  assumes "Frame_in_range f \<or> Frame_skippable f" "capacity w = None"
  shows "Frame_writeContents f w = Inr (Writer_append w (Frame_contents f))"
  using assms
  by (cases f)
     (auto simp: writeVarUInt_uint64 writeVarOctetString_47 writeErrorCode_def writeUInt8_ok
        ErrorCode_value_byte Writer_write_ok)

lemma length_Frame_contents:
  assumes "Frame_in_range f \<or> Frame_skippable f"
  shows "length (Frame_contents f) < 2 ^ 48"
proof (cases f)
  case (ConnectionCloseFrame e m)
  with assms length_var_octets [of "Buffer_from m"] show ?thesis by auto
next
  case (ConnectionNewAddressFrame a)
  with assms length_var_octets [of "Buffer_from a"] show ?thesis by auto
next
  case (ConnectionMaxDataFrame v)
  with assms length_var_uint [of v] show ?thesis by auto
next
  case (ConnectionDataBlockedFrame v)
  with assms length_var_uint [of v] show ?thesis by auto
next
  case (ConnectionMaxStreamIdFrame v)
  with assms length_var_uint [of v] show ?thesis by auto
next
  case (ConnectionStreamIdBlockedFrame v)
  with assms length_var_uint [of v] show ?thesis by auto
next
  case (StreamMoneyFrame a b)
  with assms length_var_uint [of a] length_var_uint [of b] show ?thesis by auto
next
  case (StreamMaxMoneyFrame a b c)
  with assms length_var_uint [of a] length_var_uint [of b] length_var_uint [of c]
  show ?thesis by auto
next
  case (StreamMoneyBlockedFrame a b c)
  with assms length_var_uint [of a] length_var_uint [of b] length_var_uint [of c]
  show ?thesis by auto
next
  case (StreamCloseFrame a e m)
  with assms length_var_uint [of a] length_var_octets [of "Buffer_from m"]
  show ?thesis by auto
next
  case (StreamDataFrame a b d)
  with assms length_var_uint [of a] length_var_uint [of b] length_var_octets [of d]
  show ?thesis by auto
next
  case (StreamMaxDataFrame a b)
  with assms length_var_uint [of a] length_var_uint [of b] show ?thesis by auto
next
  case (StreamDataBlockedFrame a b)
  with assms length_var_uint [of a] length_var_uint [of b] show ?thesis by auto
next
  case (ForeignFrame t c)
  with assms show ?thesis by auto
qed

lemma Frame_type_byte:
  "Frame_in_range f \<or> Frame_skippable f \<Longrightarrow> Frame_type f < 256"
  by (cases f) auto

lemma Frame_writeTo_ok:
  assumes "Frame_in_range f \<or> Frame_skippable f" "capacity w = None"
  shows "Frame_writeTo f w = Inr (Writer_append w (Frame_bytes f))"
  using assms length_Frame_contents [OF assms(1)] Frame_type_byte [OF assms(1)]
  by (simp add: Frame_writeTo_def writeUInt8_ok Frame_writeContents_ok
      writeVarOctetString_ok Frame_bytes_def)

lemma readVarUInt_uint64: "uint64 v \<Longrightarrow> readVarUInt (var_uint v @ r) = Inr (v, r)"
  by (rule readVarUInt_ok) (simp add: uint64_def MAX_UINT64_def)

lemma readVarUInt_uint64_end: "uint64 v \<Longrightarrow> readVarUInt (var_uint v) = Inr (v, [])"
  using readVarUInt_uint64 [of v "[]"] by simp

lemma readVarOctetString_47:
  "length b < 2 ^ 47 \<Longrightarrow> readVarOctetString (var_octets b @ r) = Inr (b, r)"
  by (rule readVarOctetString_ok) simp

lemma readVarOctetString_47_end:
  "length b < 2 ^ 47 \<Longrightarrow> readVarOctetString (var_octets b) = Inr (b, [])"
  using readVarOctetString_47 [of b "[]"] by simp

lemma readVarOctetString_contents:
  "Frame_in_range f \<or> Frame_skippable f \<Longrightarrow>
     readVarOctetString (var_octets (Frame_contents f) @ r) = Inr (Frame_contents f, r)"
  by (rule readVarOctetString_ok) (rule length_Frame_contents)

lemmas fromBuffer_defs =
  ConnectionCloseFrame_fromBuffer_def ConnectionNewAddressFrame_fromBuffer_def
  ConnectionMaxDataFrame_fromBuffer_def ConnectionDataBlockedFrame_fromBuffer_def
  ConnectionMaxStreamIdFrame_fromBuffer_def ConnectionStreamIdBlockedFrame_fromBuffer_def
  StreamMoneyFrame_fromBuffer_def StreamMaxMoneyFrame_fromBuffer_def
  StreamMoneyBlockedFrame_fromBuffer_def StreamCloseFrame_fromBuffer_def
  StreamDataFrame_fromBuffer_def StreamMaxDataFrame_fromBuffer_def
  StreamDataBlockedFrame_fromBuffer_def

lemma parseFrame_typed:
  assumes "Frame_in_range f"
  shows "parseFrame (Frame_bytes f @ r) = Inr (Some f, r)"
  using assms
  apply (cases f)
  apply (simp_all add: parseFrame_def Frame_bytes_def peekUInt8_Cons readUInt8_Cons unat_byte
          some_frame_def assertType_def fromBuffer_defs Reader_from_def
          readVarOctetString_contents
          del: Frame_contents.simps)
  apply (auto simp: readVarUInt_uint64 readVarUInt_uint64_end readVarOctetString_47_end
          readUInt8_Cons unat_byte ErrorCode_value_byte)
  done

lemma parseFrame_skipped:
  assumes "Frame_skippable f"
  shows "parseFrame (Frame_bytes f @ r) = Inr (None, r)"
proof -
  obtain t c where f: "f = ForeignFrame t c" using assms by (cases f) auto
  have rd: "readVarOctetString (var_octets c @ r) = Inr (c, r)"
    using assms f by (simp add: readVarOctetString_47)
  have t: "t < 256" "\<not> known_type t" using assms f by auto
  then show ?thesis
    using rd unfolding f
    by (simp add: parseFrame_def Frame_bytes_def peekUInt8_Cons readUInt8_Cons unat_byte
        known_type_def skipUInt8_def skipVarOctetString_def)
qed

section \<open>Packets: serialization and deserialization\<close>

lemma writeFrames_ok:
  assumes "\<forall>f \<in> set fs. Frame_in_range f \<or> Frame_skippable f" "capacity w = None"
  shows "writeFrames fs w = Inr (Writer_append w (concat (map Frame_bytes fs)))"
  using assms
proof (induction fs arbitrary: w)
  case Nil
  then show ?case by (simp add: Writer_append_def)
next
  case (Cons f fs)
  then show ?case by (simp add: Frame_writeTo_ok)
qed

lemma parseFrames_ok:
  assumes "\<forall>f \<in> set fs. Frame_in_range f \<or> Frame_skippable f"
  shows "parseFrames (length fs) (concat (map Frame_bytes fs) @ r) acc =
           Inr (acc @ filter Frame_in_range fs)"
  using assms
proof (induction fs arbitrary: acc)
  case Nil
  then show ?case by simp
next
  case (Cons f fs)
  show ?case
  proof (cases "Frame_in_range f")
    case True
    with Cons show ?thesis by (simp add: parseFrame_typed)
  next
    case False
    with Cons.prems have "Frame_skippable f" by simp
    with False Cons show ?thesis by (simp add: parseFrame_skipped)
  qed
qed

lemma Packet_serialize_ok:
  assumes "uint64 (sequence p)" "ilpPacketType p \<le> 255" "uint64 (prepareAmount p)"
    "uint64 (length (frames p))" "\<forall>f \<in> set (frames p). Frame_in_range f \<or> Frame_skippable f"
  shows "Packet_serialize p = Inr (Packet_bytes p)"
  using assms
  by (simp add: Packet_serialize_def Packet_writeTo_def writeUInt8_ok writeVarUInt_uint64
      writeFrames_ok VERSION_def Packet_bytes_def)

lemma Packet_deserialize_ok:
  assumes "uint64 (sequence p)" "ilpPacketType p \<le> 255" "uint64 (prepareAmount p)"
    "uint64 (length (frames p))" "\<forall>f \<in> set (frames p). Frame_in_range f \<or> Frame_skippable f"
  shows "Packet_deserializeUnencrypted (Packet_bytes p @ z) =
           Inr (p\<lparr>frames := filter Frame_in_range (frames p)\<rparr>)"
  using assms parseFrames_ok [OF assms(5), of z "[]"]
  by (simp add: Packet_deserializeUnencrypted_def Packet_bytes_def Reader_from_def
      readUInt8_Cons VERSION_def unat_byte readVarUInt_uint64)

lemma Packet_in_range_parts:
  assumes "Packet_in_range p"
  shows "uint64 (sequence p)" "ilpPacketType p \<le> 255" "uint64 (prepareAmount p)"
    "uint64 (length (frames p))" "\<forall>f \<in> set (frames p). Frame_in_range f \<or> Frame_skippable f"
    "filter Frame_in_range (frames p) = frames p"
  using assms
  by (auto simp: Packet_in_range_def uint64_def MAX_UINT64_def list_all_iff)

lemmas string_eval =
  well_formed.simps high_surrogate_def low_surrogate_def Buffer_from.simps utf8_unit_def
  utf8_pair_def REPLACEMENT_def

lemma ConnectionCloseFrame_written:
  assumes "length (Buffer_from m) < 2 ^ 47" "capacity w = None"
  shows "Frame_writeTo (ConnectionCloseFrame (Some c) m) w =
           Inr (Writer_append w (Frame_bytes (ConnectionCloseFrame (Some c) m)))"
proof -
  have l: "length (var_octets (Buffer_from m)) \<le> 7 + length (Buffer_from m)"
    using assms(1) by (rule length_var_octets)
  have "length (of_nat (ErrorCode_value c) # var_octets (Buffer_from m)) < 2 ^ 48"
    using l assms(1) by simp
  then show ?thesis
    using assms
    by (simp add: Frame_writeTo_def writeUInt8_ok writeErrorCode_def ErrorCode_value_byte
        writeVarOctetString_ok Frame_bytes_def)
qed

lemma ConnectionCloseFrame_parsed:
  assumes "length (Buffer_from m) < 2 ^ 47"
  shows "parseFrame (Frame_bytes (ConnectionCloseFrame (Some c) m) @ r) =
           Inr (Some (ConnectionCloseFrame (Some c) (toString (Buffer_from m))), r)"
proof -
  have l: "length (var_octets (Buffer_from m)) \<le> 7 + length (Buffer_from m)"
    using assms(1) by (rule length_var_octets)
  have "length (of_nat (ErrorCode_value c) # var_octets (Buffer_from m)) < 2 ^ 48"
    using l assms(1) by simp
  then have rd: "readVarOctetString
            (var_octets (of_nat (ErrorCode_value c) # var_octets (Buffer_from m)) @ r) =
          Inr (of_nat (ErrorCode_value c) # var_octets (Buffer_from m), r)"
    by (rule readVarOctetString_ok)
  show ?thesis
    using assms
    by (simp add: parseFrame_def Frame_bytes_def peekUInt8_Cons readUInt8_Cons
        some_frame_def assertType_def ConnectionCloseFrame_fromBuffer_def Reader_from_def rd
        readVarOctetString_47_end unat_byte ErrorCode_value_byte)
qed

lemma toString_lone_surrogate: "toString (Buffer_from [0xD800]) = [0xFFFD]"
  by (simp add: string_eval toString.simps continuation_def code_point_units_def)

text \<open>
  Claim C1 (amended). For every packet whose sequence and amount are unsigned 64-bit
  integers, whose type is a byte, whose frames are frames of the module's classes with
  fields in range, and whose strings (the error messages and the source account) have no
  lone surrogate, \<open>_serialize\<close> returns a buffer and \<open>_deserializeUnencrypted\<close> of
  that buffer returns the same packet: the same sequence, type, amount and frames, in the
  same order.
\<close>

theorem Packet_roundtrip:
  assumes "Packet_in_range p"
  shows "bindE (Packet_serialize p) Packet_deserializeUnencrypted = Inr p"
proof -
  note parts = Packet_in_range_parts [OF assms]
  have "Packet_deserializeUnencrypted (Packet_bytes p @ []) =
          Inr (p\<lparr>frames := filter Frame_in_range (frames p)\<rparr>)"
    using parts(1-5) by (rule Packet_deserialize_ok)
  then show ?thesis
    using Packet_serialize_ok [OF parts(1-5)] parts(6) by simp
qed

theorem Packet_roundtrip_witness:
  "bindE (Packet_serialize
            \<lparr>sequence = 7, ilpPacketType = 12, prepareAmount = 300,
             frames = [StreamMoneyFrame 1 456, ConnectionCloseFrame (Some NoError) (ascii ''ok'')]\<rparr>)
     Packet_deserializeUnencrypted =
   Inr \<lparr>sequence = 7, ilpPacketType = 12, prepareAmount = 300,
        frames = [StreamMoneyFrame 1 456, ConnectionCloseFrame (Some NoError) (ascii ''ok'')]\<rparr>"
proof -
  let ?p = "\<lparr>sequence = 7, ilpPacketType = 12, prepareAmount = 300,
      frames = [StreamMoneyFrame 1 456, ConnectionCloseFrame (Some NoError) (ascii ''ok'')]\<rparr>"
  have r: "Packet_in_range ?p"
    by (simp add: Packet_in_range_def uint64_def MAX_UINT64_def ascii_def code_unit_of_def string_eval)
  from Packet_roundtrip [OF r] show ?thesis .
qed

text \<open>
  The claim as stated, for every packet with integers in range and frames of the known
  kinds, fails. A string is written in UTF-8, which has no form for a lone surrogate:
  \<open>Buffer.from\<close> writes U+FFFD for it, and U+FFFD is what \<open>toString\<close> reads back.
  So a packet with a \<open>ConnectionClose\<close> frame whose message is the lone surrogate
  U+D800 comes back with the message U+FFFD.
\<close>

theorem Packet_roundtrip_counterexample:
  "bindE (Packet_serialize
            \<lparr>sequence = 7, ilpPacketType = 12, prepareAmount = 300,
             frames = [ConnectionCloseFrame (Some NoError) [0xD800]]\<rparr>)
     Packet_deserializeUnencrypted =
   Inr \<lparr>sequence = 7, ilpPacketType = 12, prepareAmount = 300,
        frames = [ConnectionCloseFrame (Some NoError) [0xFFFD]]\<rparr>"
proof -
  let ?f = "ConnectionCloseFrame (Some NoError) [0xD800]"
  let ?bytes = "[1, 12] @ var_uint 7 @ var_uint 300 @ var_uint 1 @ Frame_bytes ?f"
  have l: "length (Buffer_from [0xD800]) < 2 ^ 47" by (simp add: string_eval)
  have u: "uint64 7" "uint64 300" "uint64 1" by (simp_all add: uint64_def MAX_UINT64_def)
  have s: "Packet_serialize
            \<lparr>sequence = 7, ilpPacketType = 12, prepareAmount = 300, frames = [?f]\<rparr> =
           Inr ?bytes"
    using u ConnectionCloseFrame_written [OF l, of _ NoError]
    by (simp add: Packet_serialize_def Packet_writeTo_def writeUInt8_ok writeVarUInt_uint64
        VERSION_def)
  have p: "parseFrame (Frame_bytes ?f) =
             Inr (Some (ConnectionCloseFrame (Some NoError) [0xFFFD]), [])"
    using ConnectionCloseFrame_parsed [OF l, of NoError "[]"]
    by (simp only: toString_lone_surrogate append_Nil2)
  have "parseFrames 1 (Frame_bytes ?f) [] =
          Inr [ConnectionCloseFrame (Some NoError) [0xFFFD]]"
    unfolding One_nat_def parseFrames.simps p by simp
  then have d: "Packet_deserializeUnencrypted ?bytes =
        Inr \<lparr>sequence = 7, ilpPacketType = 12, prepareAmount = 300,
             frames = [ConnectionCloseFrame (Some NoError) [0xFFFD]]\<rparr>"
    using u
    by (simp add: Packet_deserializeUnencrypted_def Reader_from_def readUInt8_Cons VERSION_def
        readVarUInt_uint64 del: One_nat_def)
  show ?thesis unfolding s using d by simp
qed

text \<open>
  Claim C4. For every packet in range and every type byte that \<open>parseFrame\<close> does not
  dispatch on (every byte but \<open>0x01\<close> to \<open>0x06\<close> and \<open>0x10\<close> to \<open>0x16\<close>; \<open>0xFE\<close> is
  one), a frame of that type with any contents, put anywhere into the frame list before
  serialization, leaves a buffer that deserializes without error to the packet without
  that frame: the frames of the module's classes, in their order.
\<close>

theorem unknown_frame_skipped:
  assumes "Packet_in_range p" and "frames p = xs @ ys"
    and "t \<le> 255" and "\<not> known_type t" and "length c < 2 ^ 47"
  shows "bindE (Packet_serialize (p\<lparr>frames := xs @ ForeignFrame t c # ys\<rparr>))
           Packet_deserializeUnencrypted = Inr p"
proof -
  let ?q = "p\<lparr>frames := xs @ ForeignFrame t c # ys\<rparr>"
  note parts = Packet_in_range_parts [OF assms(1)]
  have len: "uint64 (length (frames ?q))"
    using assms(1,2) by (simp add: Packet_in_range_def uint64_def MAX_UINT64_def)
  have fr: "\<forall>f \<in> set (frames ?q). Frame_in_range f \<or> Frame_skippable f"
    using parts(5) assms(2-5) by auto
  have h: "uint64 (sequence ?q)" "ilpPacketType ?q \<le> 255" "uint64 (prepareAmount ?q)"
    using parts(1-3) by simp_all
  have flt: "filter Frame_in_range (frames ?q) = frames p"
    using parts(6) assms(2) by simp
  have "Packet_deserializeUnencrypted (Packet_bytes ?q @ []) =
          Inr (?q\<lparr>frames := filter Frame_in_range (frames ?q)\<rparr>)"
    using h len fr by (rule Packet_deserialize_ok)
  then show ?thesis
    using Packet_serialize_ok [OF h len fr] flt by simp
qed

theorem unknown_frame_skipped_witness:
  "bindE (Packet_serialize
            \<lparr>sequence = 7, ilpPacketType = 12, prepareAmount = 300,
             frames = [StreamMoneyFrame 1 456, ForeignFrame 254 [9, 9, 9],
                       ConnectionCloseFrame (Some NoError) (ascii ''ok'')]\<rparr>)
     Packet_deserializeUnencrypted =
   Inr \<lparr>sequence = 7, ilpPacketType = 12, prepareAmount = 300,
        frames = [StreamMoneyFrame 1 456, ConnectionCloseFrame (Some NoError) (ascii ''ok'')]\<rparr>"
proof -
  let ?p = "\<lparr>sequence = 7, ilpPacketType = 12, prepareAmount = 300,
      frames = [StreamMoneyFrame 1 456, ConnectionCloseFrame (Some NoError) (ascii ''ok'')]\<rparr>"
  have r: "Packet_in_range ?p"
    by (simp add: Packet_in_range_def uint64_def MAX_UINT64_def ascii_def code_unit_of_def string_eval)
  have f: "frames ?p = [StreamMoneyFrame 1 456] @ [ConnectionCloseFrame (Some NoError) (ascii ''ok'')]"
    by simp
  from unknown_frame_skipped [OF r f, of 254 "[9, 9, 9]"]
  show ?thesis by (simp add: known_type_def)
qed

section \<open>The frame types \<open>parseFrame\<close> knows\<close>

lemmas reader_eval =
  Packet_deserializeUnencrypted_def Reader_from_def readUInt8_Cons VERSION_def
  readVarUInt_def readVarOctetString_def readLengthPrefix_def readOctetString_def
  bytes_uint_def parseFrame_def peekUInt8_Cons skipUInt8_def skipVarOctetString_def

text \<open>
  Claim C5 (amended). Every frame of a class of the module, that is of a type of the
  enumeration \<open>FrameType\<close> other than \<open>Padding\<close> (\<open>0x01\<close> to \<open>0x06\<close>, \<open>0x10\<close> to
  \<open>0x16\<close>), is decoded by \<open>parseFrame\<close> into the typed frame with its fields. The
  enumeration has no type \<open>0x07\<close> and no type \<open>0x17\<close>: a frame with one of these type
  bytes is read as a type byte and a \<open>varOctetString\<close> and dropped as an unknown type.
\<close>

theorem parseFrame_catalog:
  "(Frame_in_range f \<longrightarrow>
      known_type (Frame_type f) \<and> parseFrame (Frame_bytes f @ r) = Inr (Some f, r)) \<and>
   (t \<in> {0x07, 0x17} \<and> length c < 2 ^ 47 \<longrightarrow>
      parseFrame (Frame_bytes (ForeignFrame t c) @ r) = Inr (None, r))"
proof -
  have "known_type (Frame_type f)" if "Frame_in_range f"
    using that by (cases f) (simp_all add: known_type_def)
  moreover have "parseFrame (Frame_bytes (ForeignFrame t c) @ r) = Inr (None, r)"
    if "t \<in> {0x07, 0x17}" "length c < 2 ^ 47"
    by (rule parseFrame_skipped) (use that in \<open>auto simp: known_type_def\<close>)
  ultimately show ?thesis by (simp add: parseFrame_typed)
qed

theorem parseFrame_catalog_witness:
  "parseFrame (Frame_bytes (StreamMoneyFrame 1 456) @ [9]) =
     Inr (Some (StreamMoneyFrame 1 456), [9]) \<and>
   parseFrame (Frame_bytes (ForeignFrame 7 [3, 65, 66, 67, 9]) @ [9]) = Inr (None, [9])"
  using parseFrame_catalog [of "StreamMoneyFrame 1 456" "[9]" 7 "[3, 65, 66, 67, 9]"]
  by (simp add: uint64_def MAX_UINT64_def)

text \<open>
  The claim as stated fails. The first buffer below is a packet with one frame of type
  \<open>0x07\<close> whose contents are the asset code \<open>ABC\<close> and the asset scale 9, the second a
  packet with one frame of type \<open>0x17\<close> whose contents are a stream id and a receipt of
  one byte: both deserialize to a packet without frames.
\<close>

theorem parseFrame_asset_details_counterexample:
  "Packet_deserializeUnencrypted [1, 12, 1, 0, 1, 0, 1, 1, 0x07, 5, 3, 65, 66, 67, 9] =
     Inr \<lparr>sequence = 0, ilpPacketType = 12, prepareAmount = 0, frames = []\<rparr> \<and>
   Packet_deserializeUnencrypted [1, 12, 1, 0, 1, 0, 1, 1, 0x17, 4, 1, 1, 1, 170] =
     Inr \<lparr>sequence = 0, ilpPacketType = 12, prepareAmount = 0, frames = []\<rparr>"
  by (simp add: reader_eval)

section \<open>Encryption and padding\<close>

lemma xor_twice: "((x :: byte) XOR c) XOR c = x"
  by (simp add: xor.assoc)

lemma gcm_like_toy: "gcm_like toy_aead"
  by (simp add: gcm_like_def toy_aead_def comp_def xor_twice)

lemma gcm_likeD:
  assumes "gcm_like A" "length key = 32" "length iv = 12"
  shows "length (fst (seal A key iv p)) = length p"
    and "length (snd (seal A key iv p)) = 16"
    and "unseal A key iv (snd (seal A key iv p)) (fst (seal A key iv p)) = Some p"
  using assms unfolding gcm_like_def by blast+

text \<open>
  Claim C2. For every 32-byte key, every 12-byte IV drawn by \<open>encrypt\<close> and every
  plaintext (the buffers passed, concatenated), with a cipher that behaves like
  AES-256-GCM (\<open>gcm_like\<close>): \<open>encrypt\<close> returns the IV, then the 16-byte tag, then
  the ciphertext; the output is 28 bytes longer than the plaintext; and \<open>decrypt\<close> of it
  under the same key returns the plaintext.
\<close>

theorem encrypt_decrypt:
  assumes "gcm_like A" "length key = 32" "length iv = 12"
  shows "(let (ciphertext, tag) = seal A key iv (concat buffers) in
            encrypt A key iv buffers = Inr (iv @ tag @ ciphertext) \<and>
            length tag = 16 \<and> length ciphertext = length (concat buffers)) \<and>
         bindE (encrypt A key iv buffers) (\<lambda>out. Inr (length out)) =
           Inr (length (concat buffers) + 28) \<and>
         bindE (encrypt A key iv buffers) (decrypt A key) = Inr (concat buffers)"
proof -
  let ?p = "concat buffers"
  obtain c t where s: "seal A key iv ?p = (c, t)" by (cases "seal A key iv ?p")
  from gcm_likeD [OF assms, of ?p] s
  have l: "length c = length ?p" "length t = 16" and u: "unseal A key iv t c = Some ?p"
    by simp_all
  have e: "encrypt A key iv buffers = Inr (iv @ t @ c)"
    using assms(2) s by (simp add: encrypt_def)
  have d: "decrypt A key (iv @ t @ c) = Inr ?p"
    using assms(2,3) l u by (simp add: decrypt_def IV_LENGTH_def AUTH_TAG_LENGTH_def)
  show ?thesis using s e d l assms(3) by simp
qed

theorem encrypt_decrypt_witness:
  "bindE (encrypt toy_aead (replicate 32 1) (replicate 12 7) [[1, 2], [3]])
     (\<lambda>out. Inr (length out)) = Inr 31 \<and>
   bindE (encrypt toy_aead (replicate 32 1) (replicate 12 7) [[1, 2], [3]])
     (decrypt toy_aead (replicate 32 1)) = Inr [1, 2, 3]"
proof -
  have k: "length (replicate 32 (1 :: byte)) = 32" and i: "length (replicate 12 (7 :: byte)) = 12"
    by simp_all
  from encrypt_decrypt [OF gcm_like_toy k i, of "[[1, 2], [3]]", THEN conjunct2]
  show ?thesis by simp
qed

lemma concat_replicate_zeros:
  "concat (replicate k (replicate m x)) = replicate (k * m) x"
  by (induction k) (simp_all add: replicate_add)

lemma Buffer_slice0_zeros:
  "0 \<le> k \<Longrightarrow> k \<le> 32 \<Longrightarrow> Buffer_slice0 ZERO_BYTES k = replicate (nat k) 0"
  by (simp add: Buffer_slice0_def ZERO_BYTES_def Let_def min_def)

lemma padding_bytes:
  assumes "0 \<le> paddingSize"
  shows "concat (replicate (nat (paddingSize div 32)) ZERO_BYTES
           @ [Buffer_slice0 ZERO_BYTES (js_rem paddingSize 32)]) =
         replicate (nat paddingSize) 0"
proof -
  have m: "0 \<le> paddingSize mod 32" "paddingSize mod 32 < 32" by simp_all
  have r: "js_rem paddingSize 32 = paddingSize mod 32"
    using assms by (cases "paddingSize = 0") (simp_all add: js_rem_def)
  have s: "Buffer_slice0 ZERO_BYTES (paddingSize mod 32) = replicate (nat (paddingSize mod 32)) 0"
    by (rule Buffer_slice0_zeros) (use m in linarith)+
  have "0 \<le> paddingSize div 32" using assms by simp
  then have "int (nat (paddingSize div 32) * 32 + nat (paddingSize mod 32)) = paddingSize"
    using m by simp
  then have "nat (paddingSize div 32) * 32 + nat (paddingSize mod 32) = nat paddingSize"
    by linarith
  then show ?thesis
    unfolding r s
    by (simp add: concat_replicate_zeros ZERO_BYTES_def replicate_add [symmetric])
qed

text \<open>
  Claim C10. \<open>_deserializeUnencrypted\<close> reads the number of frames the header announces
  and ignores whatever follows: for every packet in range and any bytes \<open>z\<close> (a run of
  zero bytes is one), the serialization followed by \<open>z\<close> deserializes to the packet, as
  the serialization alone does. Consequently, with a cipher that behaves like AES-256-GCM,
  a 32-byte secret and \<open>padPacketToSize\<close> at least the serialized length plus 28,
  \<open>serializeAndEncrypt\<close> returns exactly \<open>padPacketToSize\<close> bytes, and
  \<open>decryptAndDeserialize\<close> of them returns the packet.
\<close>

theorem padding_ignored:
  assumes "Packet_in_range p"
  shows "Packet_serialize p = Inr (Packet_bytes p) \<and>
         Packet_deserializeUnencrypted (Packet_bytes p @ z) = Inr p \<and>
         Packet_deserializeUnencrypted (Packet_bytes p) = Inr p \<and>
         (gcm_like A \<and> length secret = 32 \<and> length iv = 12 \<and>
          int (length (Packet_bytes p)) + 28 \<le> padPacketToSize \<longrightarrow>
            bindE (serializeAndEncrypt A secret iv (Some padPacketToSize) p)
              (\<lambda>out. Inr (int (length out))) = Inr padPacketToSize \<and>
            bindE (serializeAndEncrypt A secret iv (Some padPacketToSize) p)
              (decryptAndDeserialize A secret) = Inr p)"
proof -
  note parts = Packet_in_range_parts [OF assms]
  have ser: "Packet_serialize p = Inr (Packet_bytes p)"
    using parts(1-5) by (rule Packet_serialize_ok)
  have des: "Packet_deserializeUnencrypted (Packet_bytes p @ z) = Inr p" for z
    using Packet_deserialize_ok [OF parts(1-5), of z] parts(6) by simp
  have padded:
    "bindE (serializeAndEncrypt A secret iv (Some padPacketToSize) p)
       (\<lambda>out. Inr (int (length out))) = Inr padPacketToSize \<and>
     bindE (serializeAndEncrypt A secret iv (Some padPacketToSize) p)
       (decryptAndDeserialize A secret) = Inr p"
    if g: "gcm_like A" "length secret = 32" "length iv = 12"
      and big: "int (length (Packet_bytes p)) + 28 \<le> padPacketToSize"
  proof -
    let ?ps = "padPacketToSize - int ENCRYPTION_OVERHEAD - int (length (Packet_bytes p))"
    let ?plain = "Packet_bytes p @ replicate (nat ?ps) 0"
    have ps: "0 \<le> ?ps" using big by (simp add: ENCRYPTION_OVERHEAD_def)
    have args: "concat ([Packet_bytes p] @ replicate (nat (?ps div 32)) ZERO_BYTES
                   @ [Buffer_slice0 ZERO_BYTES (js_rem ?ps 32)]) = ?plain"
      using padding_bytes [OF ps] by simp
    obtain c t where s: "seal A secret iv ?plain = (c, t)"
      by (cases "seal A secret iv ?plain")
    from gcm_likeD [OF g, of ?plain] s
    have l: "length c = length ?plain" "length t = 16"
      and u: "unseal A secret iv t c = Some ?plain"
      by simp_all
    have "encrypt A secret iv ([Packet_bytes p] @ replicate (nat (?ps div 32)) ZERO_BYTES
                   @ [Buffer_slice0 ZERO_BYTES (js_rem ?ps 32)]) = Inr (iv @ t @ c)"
      unfolding encrypt_def args using g(2) s by simp
    then have e: "serializeAndEncrypt A secret iv (Some padPacketToSize) p = Inr (iv @ t @ c)"
      unfolding serializeAndEncrypt_def ser Let_def by simp
    have len: "int (length (iv @ t @ c)) = padPacketToSize"
      using l g(3) ps by (simp add: ENCRYPTION_OVERHEAD_def)
    have d: "decrypt A secret (iv @ t @ c) = Inr ?plain"
      using g(2,3) l u by (simp add: decrypt_def IV_LENGTH_def AUTH_TAG_LENGTH_def)
    have dd: "decryptAndDeserialize A secret (iv @ t @ c) = Inr p"
      by (simp add: decryptAndDeserialize_def d des)
    show ?thesis using e len dd by simp
  qed
  show ?thesis
    using ser des [of z] des [of "[]"] padded by simp
qed

theorem padding_ignored_witness:
  "Packet_deserializeUnencrypted
     (Packet_bytes \<lparr>sequence = 0, ilpPacketType = 12, prepareAmount = 0, frames = []\<rparr>
        @ [0, 0, 0]) =
     Inr \<lparr>sequence = 0, ilpPacketType = 12, prepareAmount = 0, frames = []\<rparr> \<and>
   bindE (serializeAndEncrypt toy_aead (replicate 32 1) (replicate 12 7) (Some 50)
            \<lparr>sequence = 0, ilpPacketType = 12, prepareAmount = 0, frames = []\<rparr>)
     (\<lambda>out. Inr (int (length out))) = Inr 50 \<and>
   bindE (serializeAndEncrypt toy_aead (replicate 32 1) (replicate 12 7) (Some 50)
            \<lparr>sequence = 0, ilpPacketType = 12, prepareAmount = 0, frames = []\<rparr>)
     (decryptAndDeserialize toy_aead (replicate 32 1)) =
     Inr \<lparr>sequence = 0, ilpPacketType = 12, prepareAmount = 0, frames = []\<rparr>"
proof -
  let ?p = "\<lparr>sequence = 0, ilpPacketType = 12, prepareAmount = 0, frames = []\<rparr>"
  have r: "Packet_in_range ?p"
    by (simp add: Packet_in_range_def uint64_def MAX_UINT64_def)
  have k: "length (replicate 32 (1 :: byte)) = 32" and i: "length (replicate 12 (7 :: byte)) = 12"
    by simp_all
  have l: "int (length (Packet_bytes ?p)) + 28 \<le> 50"
    by (simp add: Packet_bytes_def var_uint_def len_prefix_def uint_size_small)
  from padding_ignored [OF r, of "[0, 0, 0]" toy_aead "replicate 32 1" "replicate 12 7" 50]
    gcm_like_toy k i l
  show ?thesis by simp
qed

section \<open>Receipts\<close>

lemma Writer_write_capacity:
  "capacity w = Some c \<Longrightarrow> length (buffer w) + length bs \<le> c \<Longrightarrow>
     Writer_write bs w = Inr (Writer_append w bs)"
  by (simp add: Writer_write_def Writer_append_def)

lemma sha256_sized_toy: "sha256_sized toy_hmac"
  by (simp add: sha256_sized_def toy_hmac_def)

lemma length_receipt_message:
  "length n = 16 \<Longrightarrow> length (receipt_message n sid tot) = 26"
  by (simp add: receipt_message_def)

lemma unat_long: "unat (tot :: 64 word) < 256 ^ 8"
  using unsigned_less [of tot, where 'a = nat] by simp

lemma createReceipt_ok:
  assumes "length n = 16" "length secret = 32" "sid \<le> 255" "sha256_sized hm"
  shows "createReceipt hm n sid tot secret =
           Inr (receipt_message n sid tot @ hm secret (receipt_message n sid tot))"
proof -
  let ?w0 = "Writer_new_capacity 58"
  have c0: "capacity ?w0 = Some 58" "buffer ?w0 = []"
    by (simp_all add: Writer_new_capacity_def)
  note t = unat_long [of tot]
  have w1: "writeUInt8 RECEIPT_VERSION ?w0 = Inr (Writer_append ?w0 [1])"
    using c0 by (simp add: writeUInt8_def writeUInt_def Writer_write_capacity RECEIPT_VERSION_def)
  have w2: "writeOctetString n 16 (Writer_append ?w0 [1]) = Inr (Writer_append ?w0 (1 # n))"
    using c0 assms(1) by (simp add: writeOctetString_def Writer_write_capacity)
  have w3: "writeUInt8 sid (Writer_append ?w0 (1 # n)) =
              Inr (Writer_append ?w0 (1 # n @ [of_nat sid]))"
    using c0 assms(1,3)
    by (simp add: writeUInt8_def writeUInt_def Writer_write_capacity)
  have w4: "writeUInt64 tot (Writer_append ?w0 (1 # n @ [of_nat sid])) =
              Inr (Writer_append ?w0 (receipt_message n sid tot))"
    using c0 assms(1) t
    by (simp add: writeUInt64_def writeUInt_def Writer_write_capacity receipt_message_def)
  have m: "length (hm secret (receipt_message n sid tot)) = 32"
    using assms(4) by (simp add: sha256_sized_def)
  have w5: "writeOctetString (hm secret (receipt_message n sid tot)) 32
              (Writer_append ?w0 (receipt_message n sid tot)) =
            Inr (Writer_append ?w0
                   (receipt_message n sid tot @ hm secret (receipt_message n sid tot)))"
    using c0 m length_receipt_message [OF assms(1), of sid tot]
    by (simp add: writeOctetString_def Writer_write_capacity)
  show ?thesis
    using assms(1,2) c0
    by (simp add: createReceipt_def Let_def w1 w2 w3 w4 w5 longFromValue_def
        generateReceiptHMAC_def)
qed

lemma createReceipt_throws:
  assumes "length n = 16" "length secret = 32" "255 < sid"
  shows "createReceipt hm n sid tot secret = Inl (UIntDoesNotFit sid 1)"
proof -
  let ?w0 = "Writer_new_capacity 58"
  have c0: "capacity ?w0 = Some 58" "buffer ?w0 = []"
    by (simp_all add: Writer_new_capacity_def)
  have w1: "writeUInt8 RECEIPT_VERSION ?w0 = Inr (Writer_append ?w0 [1])"
    using c0 by (simp add: writeUInt8_def writeUInt_def Writer_write_capacity RECEIPT_VERSION_def)
  have w2: "writeOctetString n 16 (Writer_append ?w0 [1]) = Inr (Writer_append ?w0 (1 # n))"
    using c0 assms(1) by (simp add: writeOctetString_def Writer_write_capacity)
  have w3: "writeUInt8 sid w = Inl (UIntDoesNotFit sid 1)" for w
    using assms(3) by (simp add: writeUInt8_def writeUInt_def)
  show ?thesis
    using assms(1,2) by (simp add: createReceipt_def Let_def w1 w2 w3)
qed

lemma decodeReceipt_ok:
  assumes "length n = 16" "sid \<le> 255" "length mac = 32"
  shows "decodeReceipt (receipt_message n sid tot @ mac) =
           Inr \<lparr>version = 1, nonce = n, streamId = sid, totalReceived = tot\<rparr>"
proof -
  note t = unat_long [of tot]
  have r: "readOctetString 16 (n @ r) = Inr (n, r)" for r
    using readOctetString_append [of n r] assms(1) by simp
  have u: "readUInt64Long (uint_bytes 8 (unat tot) @ mac) = Inr (tot, mac)"
    using t by (simp add: readUInt64Long_def readUIntBig_bytes)
  show ?thesis
    using assms
    by (simp add: decodeReceipt_def receipt_message_def Reader_from_def readUInt8_Cons r u
        unat_byte)
qed

text \<open>
  Claim C3 (amended). For every 16-byte nonce, 32-byte secret and \<open>totalReceived\<close>:
  for every \<open>streamId\<close> from 0 to 255 (and an HMAC with a digest of 32 bytes),
  \<open>createReceipt\<close> returns 58 bytes: the version 1, the nonce, the \<open>streamId\<close> as one
  byte, \<open>totalReceived\<close> in 8 big-endian bytes, and the HMAC of these 26 bytes under the
  secret; \<open>decodeReceipt\<close> of them returns the version, the nonce, the \<open>streamId\<close> and
  \<open>totalReceived\<close>. For every \<open>streamId\<close> above 255, \<open>createReceipt\<close> throws (the
  error of \<open>writeUInt8\<close> for a value that does not fit one byte) and returns no buffer.
\<close>

theorem createReceipt_layout:
  assumes "length n = 16" "length secret = 32"
  shows "(sid \<le> 255 \<and> sha256_sized hm \<longrightarrow>
            createReceipt hm n sid tot secret =
              Inr ([1] @ n @ [of_nat sid] @ uint_bytes 8 (unat tot)
                     @ hm secret ([1] @ n @ [of_nat sid] @ uint_bytes 8 (unat tot))) \<and>
            bindE (createReceipt hm n sid tot secret) (\<lambda>receipt. Inr (length receipt)) =
              Inr 58 \<and>
            bindE (createReceipt hm n sid tot secret) decodeReceipt =
              Inr \<lparr>version = 1, nonce = n, streamId = sid, totalReceived = tot\<rparr>) \<and>
         (255 < sid \<longrightarrow> createReceipt hm n sid tot secret = Inl (UIntDoesNotFit sid 1))"
proof -
  have layout:
    "createReceipt hm n sid tot secret =
       Inr ([1] @ n @ [of_nat sid] @ uint_bytes 8 (unat tot)
              @ hm secret ([1] @ n @ [of_nat sid] @ uint_bytes 8 (unat tot))) \<and>
     bindE (createReceipt hm n sid tot secret) (\<lambda>receipt. Inr (length receipt)) = Inr 58 \<and>
     bindE (createReceipt hm n sid tot secret) decodeReceipt =
       Inr \<lparr>version = 1, nonce = n, streamId = sid, totalReceived = tot\<rparr>"
    if h: "sid \<le> 255" "sha256_sized hm"
  proof -
    have m: "length (hm secret (receipt_message n sid tot)) = 32"
      using h(2) by (simp add: sha256_sized_def)
    have c: "createReceipt hm n sid tot secret =
             Inr (receipt_message n sid tot @ hm secret (receipt_message n sid tot))"
      using assms h by (rule createReceipt_ok)
    have d: "decodeReceipt (receipt_message n sid tot @ hm secret (receipt_message n sid tot)) =
             Inr \<lparr>version = 1, nonce = n, streamId = sid, totalReceived = tot\<rparr>"
      using assms(1) h(1) m by (rule decodeReceipt_ok)
    have l: "length (receipt_message n sid tot @ hm secret (receipt_message n sid tot)) = 58"
      using m length_receipt_message [OF assms(1), of sid tot] by simp
    show ?thesis
      unfolding c using d l by (simp add: receipt_message_def)
  qed
  have throws: "createReceipt hm n sid tot secret = Inl (UIntDoesNotFit sid 1)" if "255 < sid"
    using assms that by (rule createReceipt_throws)
  show ?thesis using layout throws by blast
qed

lemma uint_bytes_500: "uint_bytes 8 500 = [0, 0, 0, 0, 0, 0, 1, 244]"
proof -
  have "(8 :: nat) = Suc (Suc (Suc (Suc (Suc (Suc (Suc (Suc 0)))))))" by simp
  then show ?thesis by (simp only: uint_bytes.simps) simp
qed

theorem createReceipt_layout_witness:
  "createReceipt toy_hmac (replicate 16 0) 1 500 (replicate 32 0) =
     Inr ([1] @ replicate 16 0 @ [1] @ [0, 0, 0, 0, 0, 0, 1, 244] @ replicate 32 58) \<and>
   bindE (createReceipt toy_hmac (replicate 16 0) 1 500 (replicate 32 0))
     (\<lambda>receipt. Inr (length receipt)) = Inr 58 \<and>
   bindE (createReceipt toy_hmac (replicate 16 0) 1 500 (replicate 32 0)) decodeReceipt =
     Inr \<lparr>version = 1, nonce = replicate 16 0, streamId = 1, totalReceived = 500\<rparr> \<and>
   createReceipt toy_hmac (replicate 16 0) 70000 500 (replicate 32 0) =
     Inl (UIntDoesNotFit 70000 1)"
proof -
  have h: "length (replicate 16 (0 :: byte)) = 16" "length (replicate 32 (0 :: byte)) = 32"
    by simp_all
  have s: "(1 :: nat) \<le> 255 \<and> sha256_sized toy_hmac"
    using sha256_sized_toy by simp
  have b: "(255 :: nat) < 70000" by simp
  have m: "[1] @ replicate 16 0 @ [of_nat 1] @ uint_bytes 8 (unat (500 :: 64 word))
             @ toy_hmac (replicate 32 0)
                 ([1] @ replicate 16 0 @ [of_nat 1] @ uint_bytes 8 (unat (500 :: 64 word))) =
           [1] @ replicate 16 0 @ [1] @ [0, 0, 0, 0, 0, 0, 1, 244] @ replicate 32 58"
    by (simp add: uint_bytes_500 toy_hmac_def)
  from createReceipt_layout [OF h, of 1 toy_hmac 500] s
  have 1: "createReceipt toy_hmac (replicate 16 0) 1 500 (replicate 32 0) =
             Inr ([1] @ replicate 16 0 @ [of_nat 1] @ uint_bytes 8 (unat (500 :: 64 word))
             @ toy_hmac (replicate 32 0)
                 ([1] @ replicate 16 0 @ [of_nat 1] @ uint_bytes 8 (unat (500 :: 64 word))))"
    and 2: "bindE (createReceipt toy_hmac (replicate 16 0) 1 500 (replicate 32 0))
              (\<lambda>receipt. Inr (length receipt)) = Inr 58"
    and 3: "bindE (createReceipt toy_hmac (replicate 16 0) 1 500 (replicate 32 0))
              decodeReceipt =
            Inr \<lparr>version = 1, nonce = replicate 16 0, streamId = 1, totalReceived = 500\<rparr>"
    by blast+
  from createReceipt_layout [OF h, of 70000 toy_hmac 500] b
  have 4: "createReceipt toy_hmac (replicate 16 0) 70000 500 (replicate 32 0) =
             Inl (UIntDoesNotFit 70000 1)" by blast
  show ?thesis using 1 [unfolded m] 2 3 4 by (intro conjI)
qed

text \<open>
  The claim as stated, for every \<open>streamId\<close>, fails: the \<open>streamId\<close> of a receipt is a
  \<open>LongValue\<close>, and for 256 the one-byte write is refused, so \<open>createReceipt\<close> throws
  and returns no buffer.
\<close>

theorem createReceipt_streamId_counterexample:
  "createReceipt toy_hmac (replicate 16 0) 256 500 (replicate 32 0) = Inl (UIntDoesNotFit 256 1)"
  by (simp add: createReceipt_def Writer_new_capacity_def writeUInt8_def writeUInt_def
      Writer_write_def writeOctetString_def RECEIPT_VERSION_def)

text \<open>
  Claim C7. \<open>decodeReceipt\<close> throws for every buffer whose length is not 58.
  \<open>verifyReceipt\<close> returns true exactly when the buffer has 58 bytes, its first byte is
  1 and its last 32 bytes are the HMAC of its first 26 bytes under the secret, and false
  otherwise; for a receipt that \<open>createReceipt\<close> made with the same secret it returns
  true.
\<close>

theorem verifyReceipt_checks:
  "(length receipt \<noteq> 58 \<longrightarrow> decodeReceipt receipt = Inl (Error ''receipt must be 58 bytes'')) \<and>
   verifyReceipt hm receipt secret =
     Inr (length receipt = 58 \<and> receipt ! 0 = 1 \<and>
          drop 26 receipt = hm secret (take 26 receipt)) \<and>
   (length n = 16 \<and> length secret = 32 \<and> sid \<le> 255 \<and> sha256_sized hm \<longrightarrow>
      bindE (createReceipt hm n sid tot secret) (\<lambda>r. verifyReceipt hm r secret) = Inr True)"
proof -
  have v: "verifyReceipt hm b secret =
     Inr (length b = 58 \<and> b ! 0 = 1 \<and> drop 26 b = hm secret (take 26 b))" for b
  proof (cases b)
    case Nil
    then show ?thesis by (simp add: verifyReceipt_def)
  next
    case (Cons x xs)
    have "(unat x = 1) = (x = 1)" using word_unat_eq_iff [of x 1] by simp
    then show ?thesis unfolding Cons
      by (simp add: verifyReceipt_def Reader_from_def readUInt8_Cons RECEIPT_VERSION_def
          generateReceiptHMAC_def Let_def)
  qed
  have c: "bindE (createReceipt hm n sid tot secret) (\<lambda>r. verifyReceipt hm r secret) = Inr True"
    if h: "length n = 16" "length secret = 32" "sid \<le> 255" "sha256_sized hm"
  proof -
    have m: "length (hm secret (receipt_message n sid tot)) = 32"
      using h(4) by (simp add: sha256_sized_def)
    have l: "length (receipt_message n sid tot) = 26"
      using h(1) by (rule length_receipt_message)
    show ?thesis
      unfolding createReceipt_ok [OF h] using m l
      by (simp add: v receipt_message_def)
  qed
  show ?thesis
    using v [of receipt] c by (simp add: decodeReceipt_def)
qed

theorem verifyReceipt_checks_witness:
  "decodeReceipt (replicate 57 0) = Inl (Error ''receipt must be 58 bytes'') \<and>
   verifyReceipt toy_hmac (replicate 57 0) (replicate 32 0) = Inr False \<and>
   bindE (createReceipt toy_hmac (replicate 16 0) 1 500 (replicate 32 0))
     (\<lambda>r. verifyReceipt toy_hmac r (replicate 32 0)) = Inr True"
  using verifyReceipt_checks [of "replicate 57 0" toy_hmac "replicate 32 0" "replicate 16 0" 1 500]
    sha256_sized_toy
  by simp

section \<open>The connection tag\<close>

subsection \<open>The digits of a group of three bytes\<close>















subsection \<open>The alphabets\<close>










subsection \<open>The code's \<open>base64url\<close> is the encoding of the spec\<close>











subsection \<open>The character class of a tag\<close>





subsection \<open>\<open>generateAddressAndSecret\<close>\<close>




section \<open>Properties of the offset sorter\<close>

lemma set_push_loop: "set (push_loop e xs) = insert e (set xs)"
  by (induction xs) auto

lemma mset_push_loop: "mset (push_loop e xs) = add_mset e (mset xs)"
  by (induction xs) auto

lemma ordered_push_loop: "ordered xs \<Longrightarrow> ordered (push_loop e xs)"
  by (induction xs) (auto simp: ordered_def set_push_loop)

lemma head_push: "head (push d off s) = push_loop \<lparr>data = d, offset = off\<rparr> (head s)"
  by (simp add: push_def Let_def split: list.splits)

lemma readOffset_push: "readOffset (push d off s) = readOffset s"
  by (simp add: push_def Let_def split: list.splits)

lemma ordered_read: "ordered (head s) \<Longrightarrow> ordered (head (snd (read s)))"
  by (auto simp: read_def ordered_def split: list.splits)

lemma ordered_exec: "ordered (head s) \<Longrightarrow> ordered (head (exec cs s))"
proof (induction cs s rule: exec.induct)
  case (2 d off cs s)
  then show ?case by (simp add: head_push ordered_push_loop)
next
  case (3 cs s)
  then show ?case by (simp add: ordered_read)
qed simp

lemma ordered_new: "ordered (head OffsetSorter_new)"
  by (simp add: ordered_def OffsetSorter_new_def)

lemma Min_offset_ordered:
  assumes "ordered (h # rest)"
  shows "Min (offset ` set (h # rest)) = offset h"
proof -
  have "\<forall>x \<in> set rest. offset h \<le> offset x"
    using assms by (auto simp: ordered_def)
  then show ?thesis
    by (intro Min_eqI) auto
qed

lemma read_iff_ordered:
  assumes "ordered (head s)"
  shows "(fst (read s) \<noteq> None) = (head s \<noteq> [] \<and> Min (offset ` set (head s)) = readOffset s)"
proof (cases "head s")
  case Nil
  then show ?thesis by (simp add: read_def)
next
  case (Cons h rest)
  with assms have "Min (offset ` set (head s)) = offset h"
    using Min_offset_ordered by metis
  with Cons show ?thesis by (auto simp add: read_def)
qed

lemma read_Some:
  assumes "fst (read s) = Some d"
  shows "head s = \<lparr>data = d, offset = readOffset s\<rparr> # head (snd (read s)) \<and>
         readOffset (snd (read s)) = readOffset s + int (length d)"
  using assms by (auto simp: read_def split: list.splits if_splits)

lemma read_None: "fst (read s) = None \<Longrightarrow> snd (read s) = s"
  by (auto simp: read_def split: list.splits if_splits)

lemma head_push_all:
  "head (push_all ps s) = foldl (\<lambda>xs c. push_loop (entry_of c) xs) (head s) ps"
  by (induction ps arbitrary: s) (simp_all add: push_all_def head_push entry_of_def)

lemma readOffset_push_all: "readOffset (push_all ps s) = readOffset s"
  by (induction ps arbitrary: s) (simp_all add: push_all_def readOffset_push)

lemma mset_foldl_push_loop:
  "mset (foldl (\<lambda>xs c. push_loop (entry_of c) xs) xs ps) = mset xs + mset (map entry_of ps)"
  by (induction ps arbitrary: xs) (simp_all add: mset_push_loop)

lemma ordered_foldl_push_loop:
  "ordered xs \<Longrightarrow> ordered (foldl (\<lambda>xs c. push_loop (entry_of c) xs) xs ps)"
  by (induction ps arbitrary: xs) (simp_all add: ordered_push_loop)

text \<open>An ordered queue with pairwise different offsets is determined by its entries.\<close>

lemma ordered_unique:
  assumes "ordered xs" "ordered ys" "mset xs = mset ys" "distinct (map offset xs)"
  shows "xs = ys"
proof -
  have "mset (map offset xs) = mset (map offset ys)"
    using assms(3) by simp
  then have keys: "map offset xs = map offset ys"
    using assms(1,2) unfolding ordered_def
    by (metis properties_for_sort)
  have "set ys = set xs" using assms(3) by (metis mset_eq_setD)
  moreover have "inj_on offset (set xs)"
    using assms(4) by (simp add: distinct_map)
  ultimately show ?thesis
    using keys by (metis inj_on_map_eq_map sup.idem)
qed

lemma chunks_at_lower: "c \<in> set (chunks_at off ds) \<Longrightarrow> off \<le> snd c"
proof (induction ds arbitrary: off)
  case (Cons d ds)
  then show ?case by fastforce
qed simp

lemma chunks_at_strict:
  "\<forall>d \<in> set ds. d \<noteq> [] \<Longrightarrow> sorted_wrt (<) (map snd (chunks_at off ds))"
proof (induction ds arbitrary: off)
  case (Cons d ds)
  have "0 < int (length d)" using Cons.prems by simp
  then have "off < snd c" if "c \<in> set (chunks_at (off + int (length d)) ds)" for c
    using chunks_at_lower [OF that] by linarith
  with Cons show ?case by simp
qed simp

lemma offset_entry_of: "map offset (map entry_of cs) = map snd cs"
  by (simp add: entry_of_def comp_def)

lemma head_push_all_chunks:
  assumes "\<forall>d \<in> set ds. d \<noteq> []" and "mset ps = mset (chunks_at 0 ds)"
  shows "head (push_all ps OffsetSorter_new) = map entry_of (chunks_at 0 ds)"
proof -
  let ?xs = "map entry_of (chunks_at 0 ds)"
  let ?ys = "head (push_all ps OffsetSorter_new)"
  have strict: "sorted_wrt (<) (map offset ?xs)"
    using chunks_at_strict [OF assms(1)] by (simp only: offset_entry_of)
  have "ordered ?xs"
    unfolding ordered_def using strict strict_sorted_iff by blast
  moreover have "ordered ?ys"
    by (simp add: head_push_all ordered_foldl_push_loop ordered_new)
  moreover have "mset ?xs = mset ?ys"
    by (simp add: head_push_all mset_foldl_push_loop OffsetSorter_new_def assms(2))
  moreover have "distinct (map offset ?xs)"
    using strict strict_sorted_iff by blast
  ultimately show ?thesis by (metis ordered_unique)
qed

lemma read_n_chunks:
  assumes "head s = map entry_of (chunks_at (readOffset s) ds)"
  shows "read_n (length ds + m) s =
           (map Some ds @ replicate m None,
            s\<lparr>readOffset := readOffset s + int (length (concat ds)), head := []\<rparr>)"
  using assms
proof (induction ds arbitrary: s)
  case Nil
  have "read_n m s = (replicate m None, s)" if "head s = []" for s :: OffsetSorter
    using that by (induction m) (simp_all add: read_def)
  with Nil show ?case by simp
next
  case (Cons d ds)
  let ?s1 = "s\<lparr>readOffset := readOffset s + int (length d),
               head := map entry_of (chunks_at (readOffset s + int (length d)) ds)\<rparr>"
  have r: "read s = (Some d, ?s1)"
    using Cons.prems by (simp add: read_def entry_of_def)
  have "head ?s1 = map entry_of (chunks_at (readOffset ?s1) ds)" by simp
  from Cons.IH [OF this] r show ?case by (simp add: add.assoc)
qed

lemma bytes_read_Some: "bytes_read (map Some ds @ replicate m None) = concat ds"
  by (induction ds) (simp_all add: bytes_read_def)

text \<open>
  Claim C6 (amended). For every sorter reached from a new one by any calls of \<open>push\<close> and
  \<open>read\<close>: \<open>read\<close> returns a chunk if and only if the queue is not empty and the
  smallest queued offset equals \<open>readOffset\<close>; it then removes that chunk and advances
  \<open>readOffset\<close> by its length, and otherwise leaves the sorter unchanged. Consequently,
  for every cut of a byte sequence into consecutive \<^emph>\<open>non-empty\<close> chunks (offsets from 0),
  pushing the chunks in any order and then calling \<open>read\<close> repeatedly returns each chunk
  exactly once, in ascending offset order, and then only \<open>undefined\<close>; the bytes
  returned are the original bytes.
\<close>

theorem OffsetSorter_read_reassembles:
  assumes "\<forall>d \<in> set ds. d \<noteq> []" and "mset ps = mset (chunks_at 0 ds)"
  shows "(let s = exec cs OffsetSorter_new in
            ((fst (read s) \<noteq> None) =
               (head s \<noteq> [] \<and> Min (offset ` set (head s)) = readOffset s)) \<and>
            (\<forall>d. fst (read s) = Some d \<longrightarrow>
               head s = \<lparr>data = d, offset = readOffset s\<rparr> # head (snd (read s)) \<and>
               readOffset (snd (read s)) = readOffset s + int (length d)) \<and>
            (fst (read s) = None \<longrightarrow> snd (read s) = s)) \<and>
         fst (read_n (length ds + m) (push_all ps OffsetSorter_new)) =
           map Some ds @ replicate m None \<and>
         bytes_read (fst (read_n (length ds + m) (push_all ps OffsetSorter_new))) = concat ds"
proof -
  let ?s = "exec cs OffsetSorter_new"
  have ord: "ordered (head ?s)"
    by (rule ordered_exec [OF ordered_new])
  have a: "(fst (read ?s) \<noteq> None) =
             (head ?s \<noteq> [] \<and> Min (offset ` set (head ?s)) = readOffset ?s)"
    by (rule read_iff_ordered [OF ord])
  let ?p = "push_all ps OffsetSorter_new"
  have "readOffset ?p = 0"
    by (simp add: readOffset_push_all OffsetSorter_new_def)
  then have "head ?p = map entry_of (chunks_at (readOffset ?p) ds)"
    using head_push_all_chunks [OF assms] by simp
  from read_n_chunks [OF this]
  have b: "fst (read_n (length ds + m) ?p) = map Some ds @ replicate m None"
    by simp
  show ?thesis
    unfolding Let_def using a b read_Some read_None
    by (simp add: bytes_read_Some)
qed

theorem OffsetSorter_read_reassembles_witness:
  "mset [([3 :: byte], 2 :: int), ([1, 2], 0)] = mset (chunks_at 0 [[1, 2], [3]]) \<and>
   fst (read (exec [Push [7] 0, Read, Push [8] 1] OffsetSorter_new)) = Some [8] \<and>
   fst (read_n 3 (push_all [([3], 2), ([1, 2], 0)] OffsetSorter_new)) =
     [Some [1, 2], Some [3], None] \<and>
   bytes_read (fst (read_n 3 (push_all [([3], 2), ([1, 2], 0)] OffsetSorter_new))) = [1, 2, 3]"
proof -
  have h1: "\<forall>d \<in> set [[1, 2], [3 :: byte]]. d \<noteq> []" by simp
  have h2: "mset [([3 :: byte], 2 :: int), ([1, 2], 0)] = mset (chunks_at 0 [[1, 2], [3]])"
    by simp
  have r: "fst (read (exec [Push [7] 0, Read, Push [8] 1] OffsetSorter_new)) = Some [8]"
    by (simp add: OffsetSorter_new_def push_def read_def)
  from OffsetSorter_read_reassembles [OF h1 h2, of "[Push [7] 0, Read, Push [8] 1]" 1]
  show ?thesis using h2 r by (simp add: numeral_3_eq_3 bytes_read_def)
qed

text \<open>
  The claim as stated, with chunks that may be empty, fails. The four chunks below cut
  the bytes \<open>1 2 3 4 5\<close> at offsets 0, 2, 2 and 4 (the second chunk is empty). Pushed in
  the order 0, 2 (two bytes), 2 (empty), 4, the queue holds the empty chunk behind the
  two-byte chunk of the same offset; after the second \<open>read\<close> the sorter is at offset 4
  with the empty chunk of offset 2 at its head, so every later \<open>read\<close> returns
  \<open>undefined\<close> and leaves the sorter as it is: the last byte is never returned.
\<close>

theorem OffsetSorter_empty_chunk_counterexample:
  "mset [([1, 2 :: byte], 0 :: int), ([3, 4], 2), ([], 2), ([5], 4)] =
     mset (chunks_at 0 [[1, 2], [], [3, 4], [5]]) \<and>
   fst (read_n 4 (push_all [([1, 2], 0), ([3, 4], 2), ([], 2), ([5], 4)] OffsetSorter_new)) =
     [Some [1, 2], Some [3, 4], None, None] \<and>
   read (snd (read_n 2 (push_all [([1, 2], 0), ([3, 4], 2), ([], 2), ([5], 4)] OffsetSorter_new))) =
     (None, snd (read_n 2 (push_all [([1, 2], 0), ([3, 4], 2), ([], 2), ([5], 4)] OffsetSorter_new))) \<and>
   bytes_read (fst (read_n 4 (push_all [([1, 2], 0), ([3, 4], 2), ([], 2), ([5], 4)] OffsetSorter_new)))
     \<noteq> concat [[1, 2], [], [3, 4], [5]]"
  by (simp add: push_all_def push_def read_def OffsetSorter_new_def bytes_read_def
      eval_nat_numeral)

lemma fst_read_n: "fst (read_n n s) = reads n (readOffset s) (head s)"
proof (induction n arbitrary: s)
  case (Suc n)
  show ?case
  proof (cases "head s")
    case Nil
    then show ?thesis using Suc [of s] by (simp add: read_def case_prod_unfold)
  next
    case (Cons h t)
    show ?thesis
    proof (cases "readOffset s = offset h")
      case True
      then show ?thesis
        using Cons Suc [of "s\<lparr>readOffset := offset h + int (length (data h)), head := t\<rparr>"]
        by (simp add: read_def case_prod_unfold)
    next
      case False
      then show ?thesis using Cons Suc [of s] by (simp add: read_def case_prod_unfold)
    qed
  qed
qed simp

lemma reads_blocked: "r \<noteq> offset h \<Longrightarrow> reads n r (h # t) = replicate n None"
  by (induction n) simp_all

lemma reads_repeated:
  assumes "ordered A" "\<forall>a \<in> set A. offset a \<le> offset e" "e \<in> set A" "data e \<noteq> []"
  shows "reads n r (A @ e # Z) = reads (min n (length A)) r (A @ Z) @ replicate (n - length A) None"
  using assms
proof (induction A arbitrary: n r)
  case Nil
  then show ?case by simp
next
  case (Cons a A)
  show ?case
  proof (cases n)
    case 0
    then show ?thesis by simp
  next
    case (Suc m)
    show ?thesis
    proof (cases "r = offset a")
      case False
      then have "reads n r ((a # A) @ e # Z) = replicate n None"
        and "reads (min n (length (a # A))) r ((a # A) @ Z) = replicate (min n (length (a # A))) None"
        by (simp_all add: reads_blocked)
      then show ?thesis by (simp add: replicate_add [symmetric])
    next
      case True
      let ?r = "offset a + int (length (data a))"
      have ordA: "ordered A" using Cons.prems(1) by (simp add: ordered_def)
      have leA: "\<forall>x \<in> set A. offset x \<le> offset e" using Cons.prems(2) by simp
      show ?thesis
      proof (cases "e \<in> set A")
        case True
        from Cons.IH [OF ordA leA True Cons.prems(4), of m ?r]
        show ?thesis using \<open>r = offset a\<close> Suc by simp
      next
        case False
        then have ae: "a = e" using Cons.prems(3) by simp
        have eqA: "\<forall>x \<in> set A. offset x = offset e"
          using Cons.prems(1,2) ae by (fastforce simp: ordered_def)
        have r': "?r \<noteq> offset e" using ae Cons.prems(4) by simp
        have l: "reads m ?r (A @ e # Z) = replicate m None"
          using eqA r' by (cases A) (simp_all add: reads_blocked)
        have rr: "reads (min m (length A)) ?r (A @ Z) = replicate (min m (length A)) None"
          using eqA r' by (cases A) (simp_all add: reads_blocked)
        have "replicate (min m (length A)) None @ replicate (m - length A) None = replicate m (None :: Buffer option)"
          by (simp add: replicate_add [symmetric])
        then show ?thesis using \<open>r = offset a\<close> Suc l rr by simp
      qed
    qed
  qed
qed

lemma push_loop_split:
  "push_loop e xs = takeWhile (\<lambda>x. offset x \<le> offset e) xs @ e # dropWhile (\<lambda>x. offset x \<le> offset e) xs"
  by (induction xs) auto

lemma ordered_takeWhile:
  "ordered xs \<Longrightarrow> takeWhile (\<lambda>x. offset x \<le> k) xs = filter (\<lambda>x. offset x \<le> k) xs"
proof (induction xs)
  case (Cons x xs)
  show ?case
  proof (cases "offset x \<le> k")
    case True
    with Cons show ?thesis by (simp add: ordered_def)
  next
    case False
    with Cons.prems have "\<forall>y \<in> set xs. \<not> offset y \<le> k" by (fastforce simp: ordered_def)
    then have "filter (\<lambda>x. offset x \<le> k) xs = []" by (simp add: filter_empty_conv)
    with False show ?thesis by simp
  qed
qed simp

lemma ordered_dropWhile:
  "ordered xs \<Longrightarrow> dropWhile (\<lambda>x. offset x \<le> k) xs = filter (\<lambda>x. k < offset x) xs"
proof (induction xs)
  case (Cons x xs)
  show ?case
  proof (cases "offset x \<le> k")
    case True
    with Cons show ?thesis by (simp add: ordered_def)
  next
    case False
    with Cons.prems have "\<forall>y \<in> set xs. k < offset y" by (fastforce simp: ordered_def)
    then have "filter (\<lambda>x. k < offset x) xs = xs" by (simp add: filter_id_conv)
    with False show ?thesis by simp
  qed
qed simp

lemma ordered_filter: "ordered xs \<Longrightarrow> ordered (filter P xs)"
  by (simp add: ordered_def sorted_wrt_map sorted_wrt_filter)

text \<open>
  Claim C9 (amended). Pushing a chunk that is already queued a second time is not
  idempotent: \<open>push\<close> stores the second copy as well, behind every queued entry whose
  offset is not greater. For a non-empty chunk, with \<open>k\<close> the number of queued entries
  whose offset is not greater than the chunk's, the first \<open>k\<close> later calls of \<open>read\<close>
  return what they return without the repeated push, and every further call returns
  \<open>undefined\<close>: the second copy is never handed out and blocks the entries behind it.
\<close>

theorem OffsetSorter_push_twice:
  assumes "d \<noteq> []" and "\<lparr>data = d, offset = off\<rparr> \<in> set (head (exec cs OffsetSorter_new))"
  shows "(let s = exec cs OffsetSorter_new;
              e = \<lparr>data = d, offset = off\<rparr>;
              k = length (filter (\<lambda>x. offset x \<le> off) (head s))
          in head (push d off s) =
               filter (\<lambda>x. offset x \<le> off) (head s) @ e # filter (\<lambda>x. off < offset x) (head s) \<and>
             fst (read_n n (push d off s)) =
               fst (read_n (min n k) s) @ replicate (n - k) None)"
proof -
  let ?s = "exec cs OffsetSorter_new"
  let ?e = "\<lparr>data = d, offset = off\<rparr>"
  let ?A = "filter (\<lambda>x. offset x \<le> off) (head ?s)"
  let ?Z = "filter (\<lambda>x. off < offset x) (head ?s)"
  have ord: "ordered (head ?s)"
    by (rule ordered_exec [OF ordered_new])
  have hp: "head (push d off ?s) = ?A @ ?e # ?Z"
    using ord by (simp add: head_push push_loop_split ordered_takeWhile ordered_dropWhile)
  have hs: "head ?s = ?A @ ?Z"
    using ord takeWhile_dropWhile_id [of "\<lambda>x. offset x \<le> off" "head ?s"]
    by (simp add: ordered_takeWhile ordered_dropWhile)
  have "reads n (readOffset ?s) (?A @ ?e # ?Z) =
          reads (min n (length ?A)) (readOffset ?s) (?A @ ?Z) @ replicate (n - length ?A) None"
    by (rule reads_repeated) (use assms ord in \<open>simp_all add: ordered_filter\<close>)
  then have "fst (read_n n (push d off ?s)) =
          fst (read_n (min n (length ?A)) ?s) @ replicate (n - length ?A) None"
    using hs by (simp add: fst_read_n hp readOffset_push)
  with hp show ?thesis by (simp add: Let_def)
qed

theorem OffsetSorter_push_twice_witness:
  "fst (read_n 3 (push [1, 2] 0 (exec [Push [1, 2] 0, Push [3, 4] 2] OffsetSorter_new))) =
     [Some [1, 2], None, None]"
proof -
  have h: "\<lparr>data = [1, 2], offset = 0\<rparr> \<in>
             set (head (exec [Push [1, 2] 0, Push [3, 4] 2] OffsetSorter_new))"
    by (simp add: push_def OffsetSorter_new_def)
  have s: "head (exec [Push [1, 2] 0, Push [3, 4] 2] OffsetSorter_new) =
             [\<lparr>data = [1, 2], offset = 0\<rparr>, \<lparr>data = [3, 4], offset = 2\<rparr>]"
    by (simp add: push_def OffsetSorter_new_def)
  have r: "fst (read_n 1 (exec [Push [1, 2] 0, Push [3, 4] 2] OffsetSorter_new)) = [Some [1, 2]]"
    by (simp add: push_def read_def OffsetSorter_new_def)
  from OffsetSorter_push_twice [OF _ h, of 3]
  show ?thesis unfolding Let_def s using r by (simp add: numeral_2_eq_2)
qed

text \<open>
  The claim as stated fails: after the pushes (0, two bytes) and (2, two bytes), two
  reads return both chunks; when the first push is repeated, the second read returns
  \<open>undefined\<close>, and so does every later one.
\<close>

theorem OffsetSorter_duplicate_counterexample:
  "fst (read_n 2 (push_all [([1, 2], 0), ([3, 4], 2)] OffsetSorter_new)) =
     [Some [1, 2], Some [3, 4]] \<and>
   fst (read_n 2 (push_all [([1, 2], 0), ([1, 2], 0), ([3, 4], 2)] OffsetSorter_new)) =
     [Some [1, 2], None] \<and>
   read (snd (read_n 1 (push_all [([1, 2], 0), ([1, 2], 0), ([3, 4], 2)] OffsetSorter_new))) =
     (None, snd (read_n 1 (push_all [([1, 2], 0), ([1, 2], 0), ([3, 4], 2)] OffsetSorter_new)))"
  by (simp add: push_all_def push_def read_def OffsetSorter_new_def eval_nat_numeral)

end
